theory Spec2Isabelle
  imports Main
begin

section \<open>Data model\<close>

text \<open>
  The server keeps one \<open>GameState\<close> and mutates it in place; the model passes the state
  explicitly. JavaScript numbers that hold grid indices, sizes and millisecond timestamps
  are integers here. The cell's position fields \<open>r\<close> and \<open>c\<close> are named \<open>cellR\<close> and
  \<open>cellC\<close>, so that \<open>r\<close> and \<open>c\<close> stay free for variables.
\<close>

datatype Status = Playing | Won | Lost

record Cell =
  cellR :: int
  cellC :: int
  isMine :: bool
  isRevealed :: bool
  isFlagged :: bool
  neighborMines :: nat

record GameState =
  grid :: "Cell list list"
  rows :: int
  cols :: int
  mines :: int
  status :: Status
  startTime :: "int option"
  endTime :: "int option"
  timeLimit :: int

text \<open>
  Reading a property of \<open>undefined\<close> raises a \<open>TypeError\<close> in JavaScript: that is what
  \<open>grid[r][c].isRevealed\<close> does when \<open>r\<close> or \<open>c\<close> is outside the grid.
\<close>

datatype error = TypeError

text \<open>
  The outcome of a call: \<open>None\<close> when the recursion depth (or the supply of random
  draws) given to the model is used up before the call returns, \<open>Some (Inl e)\<close> when the
  call raises \<open>e\<close>, \<open>Some (Inr s)\<close> when it returns with state \<open>s\<close>.
\<close>

type_synonym 'a result = "(error + 'a) option"

section \<open>Grid access\<close>

text \<open>\<open>grid[i][j]\<close> followed by a property read: \<open>None\<close> stands for the \<open>TypeError\<close>.\<close>

definition cellAt :: "Cell list list \<Rightarrow> int \<Rightarrow> int \<Rightarrow> Cell option" where
  "cellAt g i j =
     (if 0 \<le> i \<and> i < int (length g) \<and> 0 \<le> j \<and> j < int (length (g ! nat i))
      then Some (g ! nat i ! nat j) else None)"

text \<open>In-place assignment to the fields of \<open>grid[i][j]\<close>, for a cell that exists.\<close>

definition setCell :: "Cell list list \<Rightarrow> int \<Rightarrow> int \<Rightarrow> Cell \<Rightarrow> Cell list list" where
  "setCell g i j x = g[nat i := (g ! nat i)[nat j := x]]"

text \<open>A loop over a list whose body may raise: the first error ends the loop.\<close>

primrec forEach :: "'a list \<Rightarrow> ('a \<Rightarrow> 's \<Rightarrow> 's result) \<Rightarrow> 's \<Rightarrow> 's result" where
  "forEach [] f s = Some (Inr s)"
| "forEach (x # xs) f s =
     (case f x s of
        None \<Rightarrow> None
      | Some (Inl e) \<Rightarrow> Some (Inl e)
      | Some (Inr s') \<Rightarrow> forEach xs f s')"

text \<open>The values of \<open>dr\<close> and \<open>dc\<close> in \<open>for (let dr = -1; dr <= 1; dr++)\<close>.\<close>

definition offsets :: "int list" where
  "offsets = [-1, 0, 1]"

section \<open>createNewGame\<close>

definition newCell :: "int \<Rightarrow> int \<Rightarrow> Cell" where
  "newCell i j = \<lparr>cellR = i, cellC = j, isMine = False, isRevealed = False,
     isFlagged = False, neighborMines = 0\<rparr>"

definition emptyGrid :: "int \<Rightarrow> int \<Rightarrow> Cell list list" where
  "emptyGrid rws cls =
     map (\<lambda>i. map (\<lambda>j. newCell (int i) (int j)) [0..<nat cls]) [0..<nat rws]"

text \<open>
  The placement loop \<open>while (minesPlaced < mines)\<close>. Its random draws
  \<open>(Math.floor(Math.random() * rows), Math.floor(Math.random() * cols))\<close> are the list
  \<open>picks\<close>, in the order drawn. The loop ends only when enough distinct cells have been
  drawn: \<open>None\<close> says that the draws listed do not suffice.
\<close>

fun placeMines :: "Cell list list \<Rightarrow> int \<Rightarrow> int \<Rightarrow> (int \<times> int) list \<Rightarrow> (Cell list list) result" where
  "placeMines g placed mns [] = (if placed < mns then None else Some (Inr g))"
| "placeMines g placed mns ((i, j) # rest) =
     (if placed < mns then
        (case cellAt g i j of
           None \<Rightarrow> Some (Inl TypeError)
         | Some cell \<Rightarrow>
             if \<not> isMine cell
             then placeMines (setCell g i j (cell\<lparr>isMine := True\<rparr>)) (placed + 1) mns rest
             else placeMines g placed mns rest)
      else Some (Inr g))"

text \<open>The nine positions \<open>(i + dr, j + dc)\<close>, in the order in which the loops visit them.\<close>

definition neighbours :: "int \<Rightarrow> int \<Rightarrow> (int \<times> int) list" where
  "neighbours i j = concat (map (\<lambda>dr. map (\<lambda>dc. (i + dr, j + dc)) offsets) offsets)"

text \<open>
  The inner counting loops of the neighbour pass. The read \<open>grid[nr][nc].isMine\<close> is
  guarded by the range test on \<open>rows\<close> and \<open>cols\<close>, and the grid was built with these
  sizes.
\<close>

definition countMines :: "Cell list list \<Rightarrow> int \<Rightarrow> int \<Rightarrow> int \<Rightarrow> int \<Rightarrow> nat" where
  "countMines g rws cls i j =
     length (filter
       (\<lambda>(nr, nc). 0 \<le> nr \<and> nr < rws \<and> 0 \<le> nc \<and> nc < cls \<and> isMine (g ! nat nr ! nat nc))
       (neighbours i j))"

text \<open>The neighbour pass: mine cells are skipped (\<open>continue\<close>), the others get their count.\<close>

definition calcCell :: "int \<Rightarrow> int \<Rightarrow> int \<Rightarrow> int \<Rightarrow> Cell list list \<Rightarrow> Cell list list" where
  "calcCell rws cls i j g =
     (if isMine (g ! nat i ! nat j) then g
      else setCell g i j ((g ! nat i ! nat j)\<lparr>neighborMines := countMines g rws cls i j\<rparr>))"

definition calcNeighbors :: "int \<Rightarrow> int \<Rightarrow> Cell list list \<Rightarrow> Cell list list" where
  "calcNeighbors rws cls g =
     fold (\<lambda>i. fold (\<lambda>j. calcCell rws cls (int i) (int j)) [0..<nat cls]) [0..<nat rws] g"

definition timeLimitFor :: "int \<Rightarrow> int \<Rightarrow> int" where
  "timeLimitFor rws cls =
     (let t = 120;
          t = (if rws = 16 \<and> cls = 16 then 300 else t);
          t = (if rws = 16 \<and> cls = 30 then 600 else t)
      in t)"

definition createNewGame :: "int \<Rightarrow> int \<Rightarrow> int \<Rightarrow> int \<Rightarrow> (int \<times> int) list \<Rightarrow> GameState result" where
  "createNewGame now rws cls mns picks =
     (case placeMines (emptyGrid rws cls) 0 mns picks of
        None \<Rightarrow> None
      | Some (Inl e) \<Rightarrow> Some (Inl e)
      | Some (Inr g) \<Rightarrow>
          Some (Inr \<lparr>grid = calcNeighbors rws cls g, rows = rws, cols = cls, mines = mns,
            status = Playing, startTime = Some now, endTime = None,
            timeLimit = timeLimitFor rws cls\<rparr>))"

section \<open>revealCell, checkWin, checkTimeout and the flag handler\<close>

definition revealAllMines :: "Cell list list \<Rightarrow> Cell list list" where
  "revealAllMines g = map (map (\<lambda>cell. if isMine cell then cell\<lparr>isRevealed := True\<rparr> else cell)) g"

definition unrevealedSafeCells :: "Cell list list \<Rightarrow> nat" where
  "unrevealedSafeCells g = length (filter (\<lambda>cell. \<not> isMine cell \<and> \<not> isRevealed cell) (concat g))"

definition checkWin :: "int \<Rightarrow> GameState \<Rightarrow> GameState" where
  "checkWin now s =
     (if unrevealedSafeCells (grid s) = 0 then s\<lparr>status := Won, endTime := Some now\<rparr> else s)"

text \<open>
  \<open>revealCell\<close> calls itself for the neighbours of a cell without adjacent mines. The
  first argument bounds the depth of these calls (the call stack); \<open>now\<close> is the value of
  \<open>Date.now()\<close> during the operation.
\<close>

fun revealCell :: "nat \<Rightarrow> int \<Rightarrow> int \<Rightarrow> int \<Rightarrow> GameState \<Rightarrow> GameState result" where
  "revealCell 0 now i j s = None"
| "revealCell (Suc n) now i j s =
     (if status s \<noteq> Playing then Some (Inr s)
      else case cellAt (grid s) i j of
        None \<Rightarrow> Some (Inl TypeError)
      | Some cell \<Rightarrow>
          if isRevealed cell \<or> isFlagged cell then Some (Inr s)
          else
            let s1 = s\<lparr>grid := setCell (grid s) i j (cell\<lparr>isRevealed := True\<rparr>)\<rparr> in
            if isMine cell then
              Some (Inr (s1\<lparr>status := Lost, endTime := Some now,
                           grid := revealAllMines (grid s1)\<rparr>))
            else
              (case (if neighborMines cell = 0 then
                       forEach offsets (\<lambda>dr. forEach offsets (\<lambda>dc s'.
                         let nr = i + dr; nc = j + dc in
                         if 0 \<le> nr \<and> nr < rows s' \<and> 0 \<le> nc \<and> nc < cols s'
                         then revealCell n now nr nc s' else Some (Inr s'))) s1
                     else Some (Inr s1)) of
                 None \<Rightarrow> None
               | Some (Inl e) \<Rightarrow> Some (Inl e)
               | Some (Inr s2) \<Rightarrow> Some (Inr (checkWin now s2))))"

text \<open>
  \<open>!gameState.startTime\<close> holds for \<open>null\<close> and for the number \<open>0\<close>.
\<close>

definition checkTimeout :: "int \<Rightarrow> GameState \<Rightarrow> GameState \<times> bool" where
  "checkTimeout now s =
     (if status s \<noteq> Playing then (s, False)
      else case startTime s of
        None \<Rightarrow> (s, False)
      | Some t0 \<Rightarrow>
          if t0 = 0 then (s, False)
          else
            let elapsed = (now - t0) div 1000 in
            if elapsed \<ge> timeLimit s then
              (s\<lparr>status := Lost, endTime := Some now, grid := revealAllMines (grid s)\<rparr>, True)
            else (s, False))"

text \<open>The handler of the \<open>flag\<close> message.\<close>

definition flagCell :: "int \<Rightarrow> int \<Rightarrow> GameState \<Rightarrow> error + GameState" where
  "flagCell i j s =
     (if status s \<noteq> Playing then Inr s
      else case cellAt (grid s) i j of
        None \<Rightarrow> Inl TypeError
      | Some cell \<Rightarrow>
          if \<not> isRevealed cell
          then Inr (s\<lparr>grid := setCell (grid s) i j (cell\<lparr>isFlagged := \<not> isFlagged cell\<rparr>)\<rparr>)
          else Inr s)"

section \<open>Operations as the server receives them\<close>

text \<open>
  A \<open>click\<close> message, a \<open>flag\<close> message and a tick of the one-second timer. Every
  operation runs to completion at clock value \<open>now\<close>; \<open>depth\<close> is the call depth
  available to \<open>revealCell\<close>.
\<close>

datatype action = Reveal int int | Flag int int | CheckTimeout

fun applyAction :: "nat \<Rightarrow> int \<Rightarrow> action \<Rightarrow> GameState \<Rightarrow> GameState result" where
  "applyAction depth now (Reveal i j) s = revealCell depth now i j s"
| "applyAction depth now (Flag i j) s = Some (flagCell i j s)"
| "applyAction depth now CheckTimeout s = Some (Inr (fst (checkTimeout now s)))"

definition runActions :: "nat \<Rightarrow> (int \<times> action) list \<Rightarrow> GameState \<Rightarrow> GameState result" where
  "runActions depth evs s = forEach evs (\<lambda>(now, a). applyAction depth now a) s"

text \<open>
  The states a match can be in: a freshly generated one (sizes positive, fewer mines than
  cells), and every state an operation returns from such a state.
\<close>

inductive reachable :: "GameState \<Rightarrow> bool" where
  fresh: "0 < rws \<Longrightarrow> 0 < cls \<Longrightarrow> 0 \<le> mns \<Longrightarrow> mns < rws * cls \<Longrightarrow>
          createNewGame now rws cls mns picks = Some (Inr s) \<Longrightarrow> reachable s"
| step: "reachable s \<Longrightarrow> applyAction depth now a s = Some (Inr s') \<Longrightarrow> reachable s'"

section \<open>Notions the properties are stated with\<close>

text \<open>The grid is a rectangle of \<open>rows\<close> by \<open>cols\<close> cells.\<close>

definition rectGrid :: "Cell list list \<Rightarrow> int \<Rightarrow> int \<Rightarrow> bool" where
  "rectGrid g rws cls = (length g = nat rws \<and> list_all (\<lambda>row. length row = nat cls) g)"

definition wfState :: "GameState \<Rightarrow> bool" where
  "wfState s = rectGrid (grid s) (rows s) (cols s)"

definition mineAt :: "Cell list list \<Rightarrow> int \<Rightarrow> int \<Rightarrow> bool" where
  "mineAt g a b = (case cellAt g a b of None \<Rightarrow> False | Some y \<Rightarrow> isMine y)"

text \<open>
  The number of mines among the up to eight cells adjacent to \<open>(i, j)\<close>: positions outside
  the grid hold no cell and count for nothing.
\<close>

definition adjacentMines :: "Cell list list \<Rightarrow> int \<Rightarrow> int \<Rightarrow> nat" where
  "adjacentMines g i j =
     length (filter (\<lambda>(a, b). (a, b) \<noteq> (i, j) \<and> mineAt g a b) (neighbours i j))"

text \<open>Every cell that is not a mine carries the number of its adjacent mines.\<close>

definition countsOK :: "Cell list list \<Rightarrow> bool" where
  "countsOK g =
     list_all (\<lambda>i. list_all (\<lambda>j.
         isMine (g ! i ! j) \<or> neighborMines (g ! i ! j) = adjacentMines g (int i) (int j))
       [0..<length (g ! i)]) [0..<length g]"

text \<open>
  The grid \<open>h\<close> in the middle of the neighbour pass over \<open>g\<close>: the cells at the positions
  \<open>D\<close> have been visited.
\<close>

definition passed :: "Cell list list \<Rightarrow> int \<Rightarrow> int \<Rightarrow> (int \<times> int) set \<Rightarrow> Cell list list \<Rightarrow> bool" where
  "passed g rws cls D h =
     (map length h = map length g \<and>
      (\<forall>i j x. cellAt g i j = Some x \<longrightarrow>
         cellAt h i j = Some (if (i, j) \<in> D \<and> \<not> isMine x
           then x\<lparr>neighborMines := countMines g rws cls i j\<rparr> else x)))"

text \<open>The body of the two neighbour loops of \<open>revealCell\<close>, for one position.\<close>

definition visit :: "nat \<Rightarrow> int \<Rightarrow> int \<times> int \<Rightarrow> GameState \<Rightarrow> GameState result" where
  "visit n now p s =
     (if 0 \<le> fst p \<and> fst p < rows s \<and> 0 \<le> snd p \<and> snd p < cols s
      then revealCell n now (fst p) (snd p) s else Some (Inr s))"

text \<open>
  \<open>grew g g'\<close>: the grid \<open>g'\<close> is \<open>g\<close> with some more cells revealed and nothing else
  changed. \<open>evolves s s'\<close>: moreover the sizes, the mine number and the clock fields
  that a reveal never writes are the same.
\<close>

definition grew :: "Cell list list \<Rightarrow> Cell list list \<Rightarrow> bool" where
  "grew g g' =
     (map length g' = map length g \<and>
      (\<forall>i j x. cellAt g i j = Some x \<longrightarrow>
         (\<exists>r. cellAt g' i j = Some (x\<lparr>isRevealed := r\<rparr>) \<and> (isRevealed x \<longrightarrow> r))))"

definition evolves :: "GameState \<Rightarrow> GameState \<Rightarrow> bool" where
  "evolves s s' =
     (rows s' = rows s \<and> cols s' = cols s \<and> mines s' = mines s \<and>
      startTime s' = startTime s \<and> timeLimit s' = timeLimit s \<and> grew (grid s) (grid s'))"

text \<open>The positions of the cells that are not revealed.\<close>

definition hidden :: "Cell list list \<Rightarrow> (int \<times> int) set" where
  "hidden g = {(a, b). \<exists>x. cellAt g a b = Some x \<and> \<not> isRevealed x}"

text \<open>A cell without a mine and with count 0 has no mine among the nine cells around it.\<close>

definition safeZeros :: "Cell list list \<Rightarrow> bool" where
  "safeZeros g =
     (\<forall>i j x a b y. cellAt g i j = Some x \<longrightarrow> \<not> isMine x \<longrightarrow> neighborMines x = 0 \<longrightarrow>
        (a, b) \<in> set (neighbours i j) \<longrightarrow> cellAt g a b = Some y \<longrightarrow> \<not> isMine y)"

text \<open>No mine was revealed between \<open>g\<close> and \<open>g'\<close>.\<close>

definition minesKept :: "Cell list list \<Rightarrow> Cell list list \<Rightarrow> bool" where
  "minesKept g g' =
     (\<forall>a b x x'. cellAt g a b = Some x \<longrightarrow> cellAt g' a b = Some x' \<longrightarrow> isMine x \<longrightarrow>
        isRevealed x' = isRevealed x)"

text \<open>The status \<open>won\<close> is only held with every safe cell revealed.\<close>

definition wonOK :: "GameState \<Rightarrow> bool" where
  "wonOK s = (status s = Won \<longrightarrow> unrevealedSafeCells (grid s) = 0)"

text \<open>
  What holds in every state of a match: the grid is a rectangle with correct counts, a
  match in status \<open>playing\<close> has a safe cell left to reveal, mines are revealed only in
  a lost match, and a revealed cell with a flag is a mine.
\<close>

definition sound :: "GameState \<Rightarrow> bool" where
  "sound s =
     (wfState s \<and> countsOK (grid s) \<and>
      (status s = Playing \<longrightarrow> unrevealedSafeCells (grid s) \<noteq> 0) \<and>
      (\<forall>i j x. cellAt (grid s) i j = Some x \<longrightarrow> isRevealed x \<longrightarrow>
         (isMine x \<longrightarrow> status s = Lost) \<and> (isFlagged x \<longrightarrow> isMine x)))"

text \<open>Between \<open>g\<close> and \<open>g'\<close>, no flagged cell other than a mine was revealed.\<close>

definition flagsRespected :: "Cell list list \<Rightarrow> Cell list list \<Rightarrow> bool" where
  "flagsRespected g g' =
     (\<forall>a b x x'. cellAt g a b = Some x \<longrightarrow> cellAt g' a b = Some x' \<longrightarrow>
        \<not> isRevealed x \<longrightarrow> isRevealed x' \<longrightarrow> \<not> isFlagged x \<or> isMine x)"

text \<open>The two grids have the same shape, the same mines and the same counts.\<close>

definition sameBoard :: "Cell list list \<Rightarrow> Cell list list \<Rightarrow> bool" where
  "sameBoard g g' =
     (map length g' = map length g \<and>
      (\<forall>i j x x'. cellAt g i j = Some x \<longrightarrow> cellAt g' i j = Some x' \<longrightarrow>
         isMine x' = isMine x \<and> neighborMines x' = neighborMines x))"

text \<open>
  Notions for the recursion of \<open>revealCell\<close>. \<open>okStatus\<close>: the match is being played, or
  it has just been won with every safe cell revealed. \<open>doneAt\<close>: the cell, if there is
  one, is revealed or flagged. \<open>closed g g'\<close>: around every cell with count 0 that was
  revealed between \<open>g\<close> and \<open>g'\<close>, all cells are done. \<open>within g g' R\<close>: every cell
  revealed between \<open>g\<close> and \<open>g'\<close> lies in \<open>R\<close>.
\<close>

definition okStatus :: "GameState \<Rightarrow> bool" where
  "okStatus s = (status s = Playing \<or> (status s = Won \<and> unrevealedSafeCells (grid s) = 0))"

definition doneAt :: "Cell list list \<Rightarrow> int \<Rightarrow> int \<Rightarrow> bool" where
  "doneAt g a b = (\<forall>y. cellAt g a b = Some y \<longrightarrow> isRevealed y \<or> isFlagged y)"

definition closed :: "Cell list list \<Rightarrow> Cell list list \<Rightarrow> bool" where
  "closed g g' =
     (\<forall>a b x x'. cellAt g a b = Some x \<longrightarrow> \<not> isRevealed x \<longrightarrow> cellAt g' a b = Some x' \<longrightarrow>
        isRevealed x' \<longrightarrow> neighborMines x = 0 \<longrightarrow>
        (\<forall>p\<in>set (neighbours a b). doneAt g' (fst p) (snd p)))"

definition within :: "Cell list list \<Rightarrow> Cell list list \<Rightarrow> (int \<times> int) set \<Rightarrow> bool" where
  "within g g' R =
     (\<forall>a b x x'. cellAt g a b = Some x \<longrightarrow> \<not> isRevealed x \<longrightarrow> cellAt g' a b = Some x' \<longrightarrow>
        isRevealed x' \<longrightarrow> (a, b) \<in> R)"

definition allCells :: "Cell list list \<Rightarrow> nat" where
  "allCells g = length (concat g)"

text \<open>
  The cells a reveal at \<open>(i, j)\<close> uncovers by the recursion of \<open>revealCell\<close>: the target,
  when it is neither revealed nor flagged, and every unrevealed, unflagged cell next to
  a member that has no adjacent mines. All tests refer to the grid before the call.
\<close>

inductive_set floodRegion :: "Cell list list \<Rightarrow> int \<Rightarrow> int \<Rightarrow> (int \<times> int) set"
  for g :: "Cell list list" and i :: int and j :: int where
  start: "cellAt g i j = Some x \<Longrightarrow> \<not> isRevealed x \<Longrightarrow> \<not> isFlagged x \<Longrightarrow>
          (i, j) \<in> floodRegion g i j"
| spread: "(a, b) \<in> floodRegion g i j \<Longrightarrow> cellAt g a b = Some x \<Longrightarrow>
          \<not> isMine x \<Longrightarrow> neighborMines x = 0 \<Longrightarrow>
          (a', b') \<in> set (neighbours a b) \<Longrightarrow> cellAt g a' b' = Some y \<Longrightarrow>
          \<not> isRevealed y \<Longrightarrow> \<not> isFlagged y \<Longrightarrow> (a', b') \<in> floodRegion g i j"

text \<open>
  The region in the words of the specification: the 8-connected region of zero-neighbour
  cells containing \<open>(i, j)\<close>, together with the numbered cells bordering it, leaving
  out flagged cells and mines. Whether a cell is already revealed plays no role in it.
\<close>

inductive_set specRegion :: "Cell list list \<Rightarrow> int \<Rightarrow> int \<Rightarrow> (int \<times> int) set"
  for g :: "Cell list list" and i :: int and j :: int where
  origin: "cellAt g i j = Some x \<Longrightarrow> (i, j) \<in> specRegion g i j"
| border: "(a, b) \<in> specRegion g i j \<Longrightarrow> cellAt g a b = Some x \<Longrightarrow>
          \<not> isMine x \<Longrightarrow> neighborMines x = 0 \<Longrightarrow>
          (a', b') \<in> set (neighbours a b) \<Longrightarrow> cellAt g a' b' = Some y \<Longrightarrow>
          \<not> isMine y \<Longrightarrow> \<not> isFlagged y \<Longrightarrow> (a', b') \<in> specRegion g i j"

section \<open>Example states\<close>

definition lostExample :: GameState where
  "lostExample = \<lparr>grid = [[\<lparr>cellR = 0, cellC = 0, isMine = True, isRevealed = True,
       isFlagged = False, neighborMines = 0\<rparr>,
      \<lparr>cellR = 0, cellC = 1, isMine = False, isRevealed = False,
       isFlagged = False, neighborMines = 1\<rparr>]],
     rows = 1, cols = 2, mines = 1, status = Lost, startTime = Some 1000,
     endTime = Some 5000, timeLimit = 120\<rparr>"

definition freshExample :: GameState where
  "freshExample = \<lparr>grid = [[\<lparr>cellR = 0, cellC = 0, isMine = True, isRevealed = False,
       isFlagged = False, neighborMines = 0\<rparr>,
      \<lparr>cellR = 0, cellC = 1, isMine = False, isRevealed = False,
       isFlagged = False, neighborMines = 1\<rparr>]],
     rows = 1, cols = 2, mines = 1, status = Playing, startTime = Some 1000,
     endTime = None, timeLimit = 120\<rparr>"

definition twoMines :: GameState where
  "twoMines = \<lparr>grid = [[\<lparr>cellR = 0, cellC = 0, isMine = True, isRevealed = False,
       isFlagged = True, neighborMines = 0\<rparr>,
      \<lparr>cellR = 0, cellC = 1, isMine = True, isRevealed = False,
       isFlagged = False, neighborMines = 0\<rparr>,
      \<lparr>cellR = 0, cellC = 2, isMine = False, isRevealed = False,
       isFlagged = False, neighborMines = 1\<rparr>]],
     rows = 1, cols = 3, mines = 2, status = Playing, startTime = Some 1000,
     endTime = None, timeLimit = 120\<rparr>"

definition oneMine :: GameState where
  "oneMine = \<lparr>grid = [[\<lparr>cellR = 0, cellC = 0, isMine = True, isRevealed = False,
       isFlagged = False, neighborMines = 0\<rparr>,
      \<lparr>cellR = 0, cellC = 1, isMine = False, isRevealed = False,
       isFlagged = False, neighborMines = 1\<rparr>,
      \<lparr>cellR = 0, cellC = 2, isMine = False, isRevealed = False,
       isFlagged = False, neighborMines = 0\<rparr>]],
     rows = 1, cols = 3, mines = 1, status = Playing, startTime = Some 1000,
     endTime = None, timeLimit = 120\<rparr>"

definition oneMineWon :: GameState where
  "oneMineWon = \<lparr>grid = [[\<lparr>cellR = 0, cellC = 0, isMine = True, isRevealed = False,
       isFlagged = False, neighborMines = 0\<rparr>,
      \<lparr>cellR = 0, cellC = 1, isMine = False, isRevealed = True,
       isFlagged = False, neighborMines = 1\<rparr>,
      \<lparr>cellR = 0, cellC = 2, isMine = False, isRevealed = True,
       isFlagged = False, neighborMines = 0\<rparr>]],
     rows = 1, cols = 3, mines = 1, status = Won, startTime = Some 1000,
     endTime = Some 2000, timeLimit = 120\<rparr>"

definition twoMinesWon :: GameState where
  "twoMinesWon = \<lparr>grid = [[\<lparr>cellR = 0, cellC = 0, isMine = True, isRevealed = False,
       isFlagged = True, neighborMines = 0\<rparr>,
      \<lparr>cellR = 0, cellC = 1, isMine = True, isRevealed = False,
       isFlagged = False, neighborMines = 0\<rparr>,
      \<lparr>cellR = 0, cellC = 2, isMine = False, isRevealed = True,
       isFlagged = False, neighborMines = 1\<rparr>]],
     rows = 1, cols = 3, mines = 2, status = Won, startTime = Some 1000,
     endTime = Some 2000, timeLimit = 120\<rparr>"

definition threeSafe :: GameState where
  "threeSafe = \<lparr>grid = [[\<lparr>cellR = 0, cellC = 0, isMine = False, isRevealed = False,
       isFlagged = False, neighborMines = 0\<rparr>,
      \<lparr>cellR = 0, cellC = 1, isMine = False, isRevealed = False,
       isFlagged = False, neighborMines = 0\<rparr>,
      \<lparr>cellR = 0, cellC = 2, isMine = False, isRevealed = False,
       isFlagged = False, neighborMines = 0\<rparr>]],
     rows = 1, cols = 3, mines = 0, status = Playing, startTime = Some 1000,
     endTime = None, timeLimit = 120\<rparr>"

definition blockedExample :: GameState where
  "blockedExample = \<lparr>grid = [[\<lparr>cellR = 0, cellC = 0, isMine = False, isRevealed = False,
       isFlagged = False, neighborMines = 0\<rparr>,
      \<lparr>cellR = 0, cellC = 1, isMine = False, isRevealed = True,
       isFlagged = False, neighborMines = 0\<rparr>,
      \<lparr>cellR = 0, cellC = 2, isMine = False, isRevealed = False,
       isFlagged = False, neighborMines = 0\<rparr>]],
     rows = 1, cols = 3, mines = 0, status = Playing, startTime = Some 1000,
     endTime = None, timeLimit = 120\<rparr>"

definition blockedAfter :: GameState where
  "blockedAfter = \<lparr>grid = [[\<lparr>cellR = 0, cellC = 0, isMine = False, isRevealed = True,
       isFlagged = False, neighborMines = 0\<rparr>,
      \<lparr>cellR = 0, cellC = 1, isMine = False, isRevealed = True,
       isFlagged = False, neighborMines = 0\<rparr>,
      \<lparr>cellR = 0, cellC = 2, isMine = False, isRevealed = False,
       isFlagged = False, neighborMines = 0\<rparr>]],
     rows = 1, cols = 3, mines = 0, status = Playing, startTime = Some 1000,
     endTime = None, timeLimit = 120\<rparr>"

definition twoMinesFresh :: GameState where
  "twoMinesFresh = \<lparr>grid = [[\<lparr>cellR = 0, cellC = 0, isMine = True, isRevealed = False,
       isFlagged = False, neighborMines = 0\<rparr>,
      \<lparr>cellR = 0, cellC = 1, isMine = True, isRevealed = False,
       isFlagged = False, neighborMines = 0\<rparr>,
      \<lparr>cellR = 0, cellC = 2, isMine = False, isRevealed = False,
       isFlagged = False, neighborMines = 1\<rparr>]],
     rows = 1, cols = 3, mines = 2, status = Playing, startTime = Some 1000,
     endTime = None, timeLimit = 120\<rparr>"

definition twoMinesLost :: GameState where
  "twoMinesLost = \<lparr>grid = [[\<lparr>cellR = 0, cellC = 0, isMine = True, isRevealed = True,
       isFlagged = True, neighborMines = 0\<rparr>,
      \<lparr>cellR = 0, cellC = 1, isMine = True, isRevealed = True,
       isFlagged = False, neighborMines = 0\<rparr>,
      \<lparr>cellR = 0, cellC = 2, isMine = False, isRevealed = False,
       isFlagged = False, neighborMines = 1\<rparr>]],
     rows = 1, cols = 3, mines = 2, status = Lost, startTime = Some 1000,
     endTime = Some 2000, timeLimit = 120\<rparr>"

definition twoMinesTimedOut :: GameState where
  "twoMinesTimedOut = \<lparr>grid = [[\<lparr>cellR = 0, cellC = 0, isMine = True, isRevealed = True,
       isFlagged = True, neighborMines = 0\<rparr>,
      \<lparr>cellR = 0, cellC = 1, isMine = True, isRevealed = True,
       isFlagged = False, neighborMines = 0\<rparr>,
      \<lparr>cellR = 0, cellC = 2, isMine = False, isRevealed = False,
       isFlagged = False, neighborMines = 1\<rparr>]],
     rows = 1, cols = 3, mines = 2, status = Lost, startTime = Some 1000,
     endTime = Some 121000, timeLimit = 120\<rparr>"

section \<open>The reveal of the standalone client\<close>

text \<open>
  The repository also holds a client that plays without the server and has its own
  \<open>revealCell\<close>: it copies the grid and fills the region with a queue instead of
  recursive calls. It is modelled here to compare it with the server's operation.
\<close>

text \<open>The number of cells of a grid that are not revealed.\<close>

definition unrevealedCells :: "Cell list list \<Rightarrow> nat" where
  "unrevealedCells g = length (filter (\<lambda>cell. \<not> isRevealed cell) (concat g))"

text \<open>
  The body of the two inner loops of the client's flood fill, for the neighbour
  \<open>(nr, nc)\<close>: the pair is the copied grid \<open>newGrid\<close> and the queue. The range test reads
  \<open>state.rows\<close> and \<open>state.cols\<close>; a position in that range without a cell raises the
  \<open>TypeError\<close> of \<open>newGrid[nr][nc].isRevealed\<close>.
\<close>

definition clientVisit :: "int \<Rightarrow> int \<Rightarrow> int \<Rightarrow> int \<Rightarrow>
    Cell list list \<times> (int \<times> int) list \<Rightarrow> (Cell list list \<times> (int \<times> int) list) result" where
  "clientVisit rws cls nr nc gq =
     (if 0 \<le> nr \<and> nr < rws \<and> 0 \<le> nc \<and> nc < cls then
        (case cellAt (fst gq) nr nc of
           None \<Rightarrow> Some (Inl TypeError)
         | Some y \<Rightarrow>
             if \<not> isRevealed y \<and> \<not> isFlagged y \<and> \<not> isMine y then
               Some (Inr (setCell (fst gq) nr nc (y\<lparr>isRevealed := True\<rparr>),
                 if neighborMines y = 0 then snd gq @ [(nr, nc)] else snd gq))
             else Some (Inr gq))
      else Some (Inr gq))"

text \<open>The loops over \<open>dr\<close> and \<open>dc\<close> around the cell \<open>(cr, cc)\<close> taken from the queue.\<close>

definition clientAround :: "int \<Rightarrow> int \<Rightarrow> int \<Rightarrow> int \<Rightarrow>
    Cell list list \<times> (int \<times> int) list \<Rightarrow> (Cell list list \<times> (int \<times> int) list) result" where
  "clientAround rws cls cr cc gq =
     forEach offsets (\<lambda>dr. forEach offsets (\<lambda>dc. clientVisit rws cls (cr + dr) (cc + dc))) gq"

text \<open>
  The \<open>while (queue.length > 0)\<close> loop: \<open>queue.shift()\<close> takes the head, \<open>queue.push\<close>
  appends. Each round either reveals a cell or shortens the queue, which is the measure
  of the termination proof given with the lemmas on the client below.
\<close>

function clientFlood :: "int \<Rightarrow> int \<Rightarrow> (int \<times> int) list \<Rightarrow> Cell list list \<Rightarrow> error + Cell list list" where
  "clientFlood rws cls [] g = Inr g"
| "clientFlood rws cls ((cr, cc) # queue) g =
     (case clientAround rws cls cr cc (g, queue) of
        None \<Rightarrow> Inl TypeError
      | Some (Inl e) \<Rightarrow> Inl e
      | Some (Inr (g', queue')) \<Rightarrow> clientFlood rws cls queue' g')"
  by pat_completeness auto

text \<open>
  The client's \<open>revealCell(r, c, state)\<close>, which returns a new state and leaves its
  argument unchanged; \<open>now\<close> is the value of \<open>Date.now()\<close>.
\<close>

definition clientReveal :: "int \<Rightarrow> int \<Rightarrow> int \<Rightarrow> GameState \<Rightarrow> error + GameState" where
  "clientReveal now i j state =
     (if status state \<noteq> Playing then Inr state
      else case cellAt (grid state) i j of
        None \<Rightarrow> Inl TypeError
      | Some cell \<Rightarrow>
          if isRevealed cell \<or> isFlagged cell then Inr state
          else
            let newGrid = setCell (grid state) i j (cell\<lparr>isRevealed := True\<rparr>) in
            if isMine cell then
              Inr (state\<lparr>grid := revealAllMines newGrid, status := Lost, endTime := Some now\<rparr>)
            else
              (case (if neighborMines cell = 0
                     then clientFlood (rows state) (cols state) [(i, j)] newGrid
                     else Inr newGrid) of
                 Inl e \<Rightarrow> Inl e
               | Inr g2 \<Rightarrow>
                   if unrevealedSafeCells g2 = 0
                   then Inr (state\<lparr>grid := g2, status := Won, endTime := Some now\<rparr>)
                   else Inr (state\<lparr>grid := g2\<rparr>)))"

text \<open>
  The invariant of the client's queue loop, started on the grid \<open>g0\<close>: \<open>hq\<close> is the
  current grid and queue, \<open>R\<close> the region the loop may reveal, \<open>C\<close> the cell whose
  neighbours are being visited. A newly revealed cell with count 0 either waits in the
  queue, is the current cell, or has all its neighbours settled.
\<close>

definition floodInv :: "Cell list list \<Rightarrow> (int \<times> int) set \<Rightarrow> (int \<times> int) set \<Rightarrow>
    Cell list list \<times> (int \<times> int) list \<Rightarrow> bool" where
  "floodInv g0 R C hq =
     (grew g0 (fst hq) \<and> within g0 (fst hq) R \<and>
      (\<forall>p\<in>set (snd hq) \<union> C. p \<in> R \<and>
         (\<exists>x. cellAt g0 (fst p) (snd p) = Some x \<and> \<not> isMine x \<and> neighborMines x = 0)) \<and>
      (\<forall>a b x x'. cellAt g0 a b = Some x \<longrightarrow> \<not> isRevealed x \<longrightarrow>
         cellAt (fst hq) a b = Some x' \<longrightarrow> isRevealed x' \<longrightarrow> neighborMines x = 0 \<longrightarrow>
           (a, b) \<in> set (snd hq) \<union> C \<or>
           (\<forall>p\<in>set (neighbours a b). doneAt (fst hq) (fst p) (snd p))))"

section \<open>Grid updates and loops\<close>

lemma cellAt_setCell:
  "cellAt g i j \<noteq> None \<Longrightarrow>
   cellAt (setCell g i j x) i' j' = (if i' = i \<and> j' = j then Some x else cellAt g i' j')"
  by (auto simp: cellAt_def setCell_def nth_list_update split: if_splits)

lemma setCell_id: "cellAt g i j = Some x \<Longrightarrow> setCell g i j x = g"
  by (auto simp: cellAt_def setCell_def split: if_splits)

lemma setCell_twice: "setCell (setCell g i j x) i j y = setCell g i j y"
  by (cases "nat i < length g") (auto simp: setCell_def list_update_beyond)

lemma length_setCell: "map length (setCell g i j x) = map length g"
  by (cases "nat i < length g") (auto simp: setCell_def map_update list_update_same_conv list_update_beyond)

lemma cellAt_revealAllMines:
  "cellAt (revealAllMines g) i j =
     map_option (\<lambda>cell. if isMine cell then cell\<lparr>isRevealed := True\<rparr> else cell) (cellAt g i j)"
  by (auto simp: cellAt_def revealAllMines_def)

lemma revealAllMines_setCell:
  assumes "cellAt g i j = Some cell" "isMine cell"
  shows "revealAllMines (setCell g i j (cell\<lparr>isRevealed := True\<rparr>)) = revealAllMines g"
proof -
  from assms have i: "nat i < length g" and j: "nat j < length (g ! nat i)"
    and c: "g ! nat i ! nat j = cell"
    by (auto simp: cellAt_def split: if_splits)
  let ?f = "\<lambda>cell. if isMine cell then cell\<lparr>isRevealed := True\<rparr> else cell"
  have "map ?f ((g ! nat i)[nat j := cell\<lparr>isRevealed := True\<rparr>]) = map ?f (g ! nat i)"
    using j c assms(2) by (simp add: map_update list_update_same_conv)
  then show ?thesis
    using i by (simp add: revealAllMines_def setCell_def map_update list_update_same_conv)
qed

lemma forEach_append:
  "forEach (xs @ ys) f s =
     (case forEach xs f s of
        None \<Rightarrow> None
      | Some (Inl e) \<Rightarrow> Some (Inl e)
      | Some (Inr s') \<Rightarrow> forEach ys f s')"
  by (induction xs arbitrary: s) (auto split: option.splits sum.splits)

lemma forEach_nested:
  "forEach xs (\<lambda>x. forEach ys (\<lambda>y. f x y)) s =
   forEach (concat (map (\<lambda>x. map (\<lambda>y. (x, y)) ys) xs)) (\<lambda>(x, y). f x y) s"
proof (induction xs arbitrary: s)
  case Nil
  then show ?case by simp
next
  case (Cons x xs)
  have inner: "forEach (map (\<lambda>y. (x, y)) ys) (\<lambda>(x, y). f x y) t = forEach ys (f x) t" for t
    by (induction ys arbitrary: t) (auto split: option.splits sum.splits)
  show ?case
    by (simp add: forEach_append inner Cons.IH split: option.splits sum.splits)
qed

lemma forEach_inv:
  assumes "forEach xs f s = Some (Inr s')" and "I s"
    and "\<And>x a b. x \<in> set xs \<Longrightarrow> I a \<Longrightarrow> f x a = Some (Inr b) \<Longrightarrow> I b"
  shows "I s'"
  using assms
proof (induction xs arbitrary: s)
  case Nil
  then show ?case by simp
next
  case (Cons x xs)
  from Cons.prems(1) obtain a where a: "f x s = Some (Inr a)" and rest: "forEach xs f a = Some (Inr s')"
    by (auto split: option.splits sum.splits)
  have "I a" using Cons.prems(3)[OF _ Cons.prems(2) a] by simp
  show ?case
    by (rule Cons.IH[OF rest \<open>I a\<close>]) (rule Cons.prems(3), simp_all)
qed

lemma forEach_post_aux:
  assumes step: "\<And>x a b. x \<in> set xs \<Longrightarrow> I a \<Longrightarrow> f x a = Some (Inr b) \<Longrightarrow> I b \<and> Q x b"
    and stable: "\<And>x y a b. Q x a \<Longrightarrow> I a \<Longrightarrow> y \<in> set xs \<Longrightarrow> f y a = Some (Inr b) \<Longrightarrow> Q x b"
  shows "forEach ys f s = Some (Inr s') \<Longrightarrow> I s \<Longrightarrow> set ys \<subseteq> set xs \<Longrightarrow>
         \<forall>x\<in>D. Q x s \<Longrightarrow> I s' \<and> (\<forall>x\<in>D \<union> set ys. Q x s')"
proof (induction ys arbitrary: s D)
  case Nil
  then show ?case by simp
next
  case (Cons y ys)
  from Cons.prems(1) obtain a where a: "f y s = Some (Inr a)" and rest: "forEach ys f a = Some (Inr s')"
    by (auto split: option.splits sum.splits)
  have y: "y \<in> set xs" using Cons.prems(3) by simp
  have Ia: "I a" and Qa: "Q y a" using step[OF y Cons.prems(2) a] by simp_all
  have D: "\<forall>x\<in>insert y D. Q x a"
  proof
    fix x assume "x \<in> insert y D"
    then consider "x = y" | "x \<in> D" by blast
    then show "Q x a"
    proof cases
      case 1 then show ?thesis using Qa by simp
    next
      case 2
      then have "Q x s" using Cons.prems(4) by blast
      then show ?thesis using stable[OF _ Cons.prems(2) y a] by blast
    qed
  qed
  have sub: "set ys \<subseteq> set xs" using Cons.prems(3) by simp
  have "I s' \<and> (\<forall>x\<in>insert y D \<union> set ys. Q x s')"
    by (rule Cons.IH[OF rest Ia sub D])
  then show ?case by simp
qed

lemma forEach_post:
  assumes "forEach xs f s = Some (Inr s')" and "I s"
    and step: "\<And>x a b. x \<in> set xs \<Longrightarrow> I a \<Longrightarrow> f x a = Some (Inr b) \<Longrightarrow> I b \<and> Q x b"
    and stable: "\<And>x y a b. Q x a \<Longrightarrow> I a \<Longrightarrow> y \<in> set xs \<Longrightarrow> f y a = Some (Inr b) \<Longrightarrow> Q x b"
  shows "I s' \<and> (\<forall>x\<in>set xs. Q x s')"
proof -
  have "I s' \<and> (\<forall>x\<in>{} \<union> set xs. Q x s')"
    by (rule forEach_post_aux[where I = I and Q = Q and xs = xs, OF step stable assms(1,2)]) simp_all
  then show ?thesis by simp
qed

lemma forEach_total:
  assumes "I s"
    and "\<And>x a. x \<in> set xs \<Longrightarrow> I a \<Longrightarrow> \<exists>b. f x a = Some (Inr b) \<and> I b"
  shows "\<exists>s'. forEach xs f s = Some (Inr s') \<and> I s'"
  using assms
proof (induction xs arbitrary: s)
  case Nil
  then show ?case by simp
next
  case (Cons x xs)
  from Cons.prems(2)[OF _ Cons.prems(1)] obtain a where a: "f x s = Some (Inr a)" "I a"
    by auto
  have "\<exists>s'. forEach xs f a = Some (Inr s') \<and> I s'"
    by (rule Cons.IH[OF a(2)]) (rule Cons.prems(2), simp_all)
  with a show ?case by auto
qed

section \<open>Terminal statuses\<close>

lemma revealCell_not_playing:
  "status s \<noteq> Playing \<Longrightarrow> revealCell (Suc n) now i j s = Some (Inr s)"
  by simp

lemma flagCell_not_playing: "status s \<noteq> Playing \<Longrightarrow> flagCell i j s = Inr s"
  by (simp add: flagCell_def)

lemma checkTimeout_not_playing: "status s \<noteq> Playing \<Longrightarrow> checkTimeout now s = (s, False)"
  by (simp add: checkTimeout_def)

lemma applyAction_not_playing:
  "status s \<noteq> Playing \<Longrightarrow> applyAction (Suc n) now a s = Some (Inr s)"
  by (cases a) (simp_all add: flagCell_not_playing checkTimeout_not_playing)

lemma createNewGame_fields:
  assumes "createNewGame now rws cls mns picks = Some (Inr s)"
  shows "status s = Playing" "rows s = rws" "cols s = cls" "mines s = mns"
    "startTime s = Some now" "endTime s = None" "timeLimit s = timeLimitFor rws cls"
  using assms by (auto simp: createNewGame_def split: option.splits sum.splits)

text \<open>
  Claim C9. The statuses \<open>won\<close> and \<open>lost\<close> are terminal: in a state whose status is not
  \<open>playing\<close>, a reveal, a flag and a timeout check return the state as it is, and so does
  every sequence of them; a match in status \<open>playing\<close> is what \<open>createNewGame\<close>
  returns.
\<close>

theorem terminal_statuses:
  "(status s \<noteq> Playing \<longrightarrow>
      revealCell (Suc n) now i j s = Some (Inr s) \<and>
      flagCell i j s = Inr s \<and>
      checkTimeout now s = (s, False) \<and>
      runActions (Suc n) evs s = Some (Inr s)) \<and>
   (createNewGame now rws cls mns picks = Some (Inr s) \<longrightarrow> status s = Playing)"
proof -
  have run: "runActions (Suc n) evs s = Some (Inr s)" if "status s \<noteq> Playing"
    using that unfolding runActions_def
    by (induction evs) (auto simp: applyAction_not_playing)
  show ?thesis
    using run createNewGame_fields(1)
    by (auto simp: flagCell_not_playing checkTimeout_not_playing)
qed

theorem terminal_statuses_witness:
  "status lostExample \<noteq> Playing \<and>
   revealCell 3 6000 0 1 lostExample = Some (Inr lostExample) \<and>
   runActions 3 [(6000, Reveal 0 1), (7000, Flag 0 1), (200000, CheckTimeout), (200001, Reveal 9 9)]
     lostExample = Some (Inr lostExample) \<and>
   createNewGame 1000 1 2 1 [(0, 0)] \<noteq> None \<and>
   status (projr (the (createNewGame 1000 1 2 1 [(0, 0)]))) = Playing"
proof -
  have h: "status lostExample \<noteq> Playing" by (simp add: lostExample_def)
  have c: "createNewGame 1000 1 2 1 [(0, 0)] = Some (Inr (projr (the (createNewGame 1000 1 2 1 [(0, 0)]))))"
    by code_simp
  have n3: "(3::nat) = Suc 2" by simp
  show ?thesis
    using terminal_statuses[of lostExample 2 6000 0 1
        "[(6000, Reveal 0 1), (7000, Flag 0 1), (200000, CheckTimeout), (200001, Reveal 9 9)]"
        1 2 1 "[(0, 0)]"]
      terminal_statuses[of "projr (the (createNewGame 1000 1 2 1 [(0, 0)]))" 2 1000 0 0 "[]"
        1 2 1 "[(0, 0)]"] h c
    unfolding n3 by auto
qed

section \<open>No-ops, flags, mines and the timer\<close>

lemma freshExample_generated: "createNewGame 1000 1 2 1 [(0, 0)] = Some (Inr freshExample)"
  unfolding freshExample_def by code_simp

lemma cellAt_range:
  "wfState s \<Longrightarrow> cellAt (grid s) i j \<noteq> None \<longleftrightarrow> 0 \<le> i \<and> i < rows s \<and> 0 \<le> j \<and> j < cols s"
  by (auto simp: wfState_def rectGrid_def cellAt_def list_all_length)

text \<open>
  Claim C8. In a match in status \<open>playing\<close>, the flag operation on an unrevealed cell
  toggles that cell's \<open>isFlagged\<close> and changes nothing else: the cell's other fields, all
  other cells and all other fields of the match stay as they are, and a second flag on
  the same cell gives back the original state. On a revealed cell the operation changes
  nothing. The status is never changed.
\<close>

theorem flag_toggles:
  assumes "status s = Playing" and "cellAt (grid s) i j = Some cell"
  shows "(\<not> isRevealed cell \<longrightarrow>
           (\<exists>s'. flagCell i j s = Inr s' \<and>
              cellAt (grid s') i j = Some (cell\<lparr>isFlagged := \<not> isFlagged cell\<rparr>) \<and>
              (\<forall>a b. (a, b) \<noteq> (i, j) \<longrightarrow> cellAt (grid s') a b = cellAt (grid s) a b) \<and>
              map length (grid s') = map length (grid s) \<and>
              s'\<lparr>grid := grid s\<rparr> = s \<and>
              flagCell i j s' = Inr s)) \<and>
         (isRevealed cell \<longrightarrow> flagCell i j s = Inr s) \<and>
         (\<forall>s'. flagCell i j s = Inr s' \<longrightarrow> status s' = status s)"
proof -
  let ?x = "cell\<lparr>isFlagged := \<not> isFlagged cell\<rparr>"
  let ?t = "s\<lparr>grid := setCell (grid s) i j ?x\<rparr>"
  have ex: "cellAt (grid s) i j \<noteq> None" using assms(2) by simp
  have at: "cellAt (grid ?t) a b = (if a = i \<and> b = j then Some ?x else cellAt (grid s) a b)" for a b
    using cellAt_setCell[OF ex] by simp
  have restore: "setCell (grid ?t) i j (?x\<lparr>isFlagged := \<not> isFlagged ?x\<rparr>) = grid s"
    using assms(2) by (simp add: setCell_twice setCell_id)
  have twice: "flagCell i j ?t = Inr s" if "\<not> isRevealed cell"
    using that assms(1) at[of i j] restore by (simp add: flagCell_def)
  show ?thesis
    using assms at twice by (auto simp: flagCell_def length_setCell)
qed

theorem flag_toggles_witness:
  "status freshExample = Playing \<and> cellAt (grid freshExample) 0 1 \<noteq> None \<and>
   (\<exists>s'. flagCell 0 1 freshExample = Inr s' \<and> flagCell 0 1 s' = Inr freshExample \<and>
      status s' = Playing \<and> map (map isFlagged) (grid s') = [[False, True]])"
proof -
  let ?c = "\<lparr>cellR = 0, cellC = 1, isMine = False, isRevealed = False,
       isFlagged = False, neighborMines = 1\<rparr>"
  have h1: "status freshExample = Playing" by (simp add: freshExample_def)
  have h2: "cellAt (grid freshExample) 0 1 = Some ?c"
    by (simp add: freshExample_def cellAt_def)
  have e: "map (map isFlagged) (grid s') = [[False, True]]" if "flagCell 0 1 freshExample = Inr s'" for s'
    using that by (auto simp: flagCell_def freshExample_def cellAt_def setCell_def)
  show ?thesis
    using flag_toggles[OF h1 h2] h1 h2 e by auto
qed

text \<open>
  Claim C5, amended. A reveal returns the state unchanged when the status is not
  \<open>playing\<close> (whatever the coordinates), and when the target cell exists and is already
  revealed or flagged. In status \<open>playing\<close> a target outside the grid is not a silent
  no-op: reading the missing cell raises a \<open>TypeError\<close>. For a rectangular grid the
  missing cells are exactly those with coordinates out of range.
\<close>

theorem reveal_noop_or_raise:
  "(status s \<noteq> Playing \<longrightarrow> revealCell (Suc n) now i j s = Some (Inr s)) \<and>
   (status s = Playing \<and> cellAt (grid s) i j = Some cell \<and> (isRevealed cell \<or> isFlagged cell) \<longrightarrow>
      revealCell (Suc n) now i j s = Some (Inr s)) \<and>
   (status s = Playing \<and> cellAt (grid s) i j = None \<longrightarrow>
      revealCell (Suc n) now i j s = Some (Inl TypeError)) \<and>
   (wfState s \<longrightarrow> (cellAt (grid s) i j = None \<longleftrightarrow> \<not> (0 \<le> i \<and> i < rows s \<and> 0 \<le> j \<and> j < cols s)))"
  using cellAt_range[of s i j] by auto

theorem reveal_noop_or_raise_witness:
  "status lostExample \<noteq> Playing \<and> revealCell 1 7000 5 5 lostExample = Some (Inr lostExample) \<and>
   status twoMines = Playing \<and> cellAt (grid twoMines) 0 0 \<noteq> None \<and>
   revealCell 1 7000 0 0 twoMines = Some (Inr twoMines) \<and>
   cellAt (grid twoMines) 0 3 = None \<and> revealCell 1 7000 0 3 twoMines = Some (Inl TypeError) \<and>
   wfState twoMines"
proof -
  let ?c = "\<lparr>cellR = 0, cellC = 0, isMine = True, isRevealed = False,
       isFlagged = True, neighborMines = 0\<rparr>"
  have h1: "status lostExample \<noteq> Playing" by (simp add: lostExample_def)
  have h2: "status twoMines = Playing" by (simp add: twoMines_def)
  have h3: "cellAt (grid twoMines) 0 0 = Some ?c" by (simp add: twoMines_def cellAt_def)
  have h4: "cellAt (grid twoMines) 0 3 = None" by (simp add: twoMines_def cellAt_def)
  have h5: "wfState twoMines" by (simp add: twoMines_def wfState_def rectGrid_def)
  have n: "(1::nat) = Suc 0" by simp
  show ?thesis
    using reveal_noop_or_raise[of lostExample 0 7000 5 5]
      reveal_noop_or_raise[of twoMines 0 7000 0 0 ?c]
      reveal_noop_or_raise[of twoMines 0 7000 0 3] h1 h2 h3 h4 h5
    unfolding n by simp
qed

text \<open>
  The claim as stated fails: on a freshly generated 1 by 2 board, a reveal at column 2
  raises instead of returning the state.
\<close>

theorem reveal_out_of_range_raises:
  "createNewGame 1000 1 2 1 [(0, 0)] = Some (Inr freshExample) \<and>
   status freshExample = Playing \<and>
   revealCell 3 2000 0 2 freshExample = Some (Inl TypeError) \<and>
   revealCell 3 2000 0 2 freshExample \<noteq> Some (Inr freshExample)"
proof -
  have "revealCell 3 2000 0 2 freshExample = Some (Inl TypeError)"
    unfolding freshExample_def by code_simp
  then show ?thesis
    using freshExample_generated by (simp add: freshExample_def)
qed

text \<open>Revealing a mine.\<close>

lemma revealCell_mine:
  assumes "status s = Playing" and "cellAt (grid s) i j = Some cell" and "isMine cell"
    and "\<not> isRevealed cell" and "\<not> isFlagged cell"
  shows "revealCell (Suc n) now i j s =
     Some (Inr (s\<lparr>status := Lost, endTime := Some now, grid := revealAllMines (grid s)\<rparr>))"
  using assms by (simp add: revealAllMines_setCell)

lemma revealAllMines_cell:
  assumes "cellAt g a b = Some x"
  shows "\<exists>x'. cellAt (revealAllMines g) a b = Some x' \<and> isFlagged x' = isFlagged x \<and>
     isMine x' = isMine x \<and> neighborMines x' = neighborMines x \<and>
     (isMine x \<longrightarrow> isRevealed x') \<and> (\<not> isMine x \<longrightarrow> isRevealed x' = isRevealed x)"
  using assms by (simp add: cellAt_revealAllMines)

text \<open>
  Claim C2. In a match in status \<open>playing\<close>, a reveal of an unrevealed, unflagged mine
  cell returns a state with status \<open>lost\<close> and \<open>endTime\<close> set; every mine cell is
  revealed, every flag is as before, and every cell that is not a mine is revealed
  exactly if it was. The resulting state does not depend on which mine was clicked.
\<close>

theorem mine_reveal_loses:
  assumes "status s = Playing" and "cellAt (grid s) i j = Some cell" and "isMine cell"
    and "\<not> isRevealed cell" and "\<not> isFlagged cell"
  shows "\<exists>s'. revealCell (Suc n) now i j s = Some (Inr s') \<and>
     status s' = Lost \<and> endTime s' = Some now \<and>
     s' = s\<lparr>status := Lost, endTime := Some now, grid := revealAllMines (grid s)\<rparr> \<and>
     map length (grid s') = map length (grid s) \<and>
     (\<forall>a b x. cellAt (grid s) a b = Some x \<longrightarrow>
        (\<exists>x'. cellAt (grid s') a b = Some x' \<and> isFlagged x' = isFlagged x \<and>
           isMine x' = isMine x \<and> neighborMines x' = neighborMines x \<and>
           (isMine x \<longrightarrow> isRevealed x') \<and> (\<not> isMine x \<longrightarrow> isRevealed x' = isRevealed x)))"
proof -
  have len: "map length (revealAllMines g) = map length g" for g
    by (simp add: revealAllMines_def)
  show ?thesis
    using revealCell_mine[OF assms] revealAllMines_cell len by simp
qed

theorem mine_reveal_loses_witness:
  "status twoMines = Playing \<and> cellAt (grid twoMines) 0 1 \<noteq> None \<and>
   (\<exists>s'. revealCell 1 2000 0 1 twoMines = Some (Inr s') \<and> status s' = Lost \<and>
      endTime s' = Some 2000 \<and>
      map (map isRevealed) (grid s') = [[True, True, False]] \<and>
      map (map isFlagged) (grid s') = [[True, False, False]])"
proof -
  let ?c = "\<lparr>cellR = 0, cellC = 1, isMine = True, isRevealed = False,
       isFlagged = False, neighborMines = 0\<rparr>"
  have h1: "status twoMines = Playing" by (simp add: twoMines_def)
  have h2: "cellAt (grid twoMines) 0 1 = Some ?c" by (simp add: twoMines_def cellAt_def)
  have g: "map (map isRevealed) (revealAllMines (grid twoMines)) = [[True, True, False]]"
    "map (map isFlagged) (revealAllMines (grid twoMines)) = [[True, False, False]]"
    by (simp_all add: twoMines_def revealAllMines_def)
  from mine_reveal_loses[OF h1 h2, of 0 2000]
  obtain s' where "revealCell 1 2000 0 1 twoMines = Some (Inr s')" "status s' = Lost"
    "endTime s' = Some 2000"
    "s' = twoMines\<lparr>status := Lost, endTime := Some 2000, grid := revealAllMines (grid twoMines)\<rparr>"
    by auto
  then show ?thesis using h1 h2 g by simp
qed

text \<open>
  Claim C6. \<open>checkTimeout\<close> returns \<open>false\<close> and changes nothing when the status is not
  \<open>playing\<close> or \<open>startTime\<close> is unset (\<open>null\<close>, or \<open>0\<close>, which JavaScript takes for
  unset as well). Otherwise, with \<open>elapsed\<close> the floor of \<open>(now - startTime) / 1000\<close>,
  exactly when \<open>elapsed \<ge> timeLimit\<close> it sets the status to \<open>lost\<close>, sets \<open>endTime\<close>,
  reveals every mine and returns \<open>true\<close>. With \<open>timeLimit = 120\<close> nothing changes at
  \<open>startTime + 119000\<close>, and the match is lost at \<open>startTime + 120000\<close>.
\<close>

theorem timeout_check:
  "(status s \<noteq> Playing \<or> startTime s = None \<or> startTime s = Some 0 \<longrightarrow>
      checkTimeout now s = (s, False)) \<and>
   (status s = Playing \<and> startTime s = Some t0 \<and> t0 \<noteq> 0 \<longrightarrow>
      (timeLimit s \<le> (now - t0) div 1000 \<longrightarrow>
         checkTimeout now s =
           (s\<lparr>status := Lost, endTime := Some now, grid := revealAllMines (grid s)\<rparr>, True)) \<and>
      (\<not> timeLimit s \<le> (now - t0) div 1000 \<longrightarrow> checkTimeout now s = (s, False)) \<and>
      (timeLimit s = 120 \<longrightarrow>
         checkTimeout (t0 + 119000) s = (s, False) \<and>
         checkTimeout (t0 + 120000) s =
           (s\<lparr>status := Lost, endTime := Some (t0 + 120000), grid := revealAllMines (grid s)\<rparr>,
            True))) \<and>
   (\<forall>a b x. cellAt (grid s) a b = Some x \<longrightarrow>
      (\<exists>x'. cellAt (revealAllMines (grid s)) a b = Some x' \<and> isFlagged x' = isFlagged x \<and>
         isMine x' = isMine x \<and> neighborMines x' = neighborMines x \<and>
         (isMine x \<longrightarrow> isRevealed x') \<and> (\<not> isMine x \<longrightarrow> isRevealed x' = isRevealed x)))"
  using revealAllMines_cell by (auto simp: checkTimeout_def)

theorem timeout_check_witness:
  "status twoMines = Playing \<and> startTime twoMines = Some 1000 \<and> timeLimit twoMines = 120 \<and>
   checkTimeout 120000 twoMines = (twoMines, False) \<and>
   snd (checkTimeout 121000 twoMines) \<and>
   status (fst (checkTimeout 121000 twoMines)) = Lost \<and>
   map (map isRevealed) (grid (fst (checkTimeout 121000 twoMines))) = [[True, True, False]] \<and>
   checkTimeout 121000 (twoMines\<lparr>status := Won\<rparr>) = (twoMines\<lparr>status := Won\<rparr>, False)"
proof -
  have h: "status twoMines = Playing" "startTime twoMines = Some 1000" "timeLimit twoMines = 120"
    by (simp_all add: twoMines_def)
  have g: "map (map isRevealed) (revealAllMines (grid twoMines)) = [[True, True, False]]"
    by (simp add: twoMines_def revealAllMines_def)
  show ?thesis
    using timeout_check[of twoMines 120000 1000] timeout_check[of "twoMines\<lparr>status := Won\<rparr>" 121000 1000]
      h g by simp
qed

section \<open>Cells and counting\<close>

lemma cellAt_SomeD:
  "cellAt g i j = Some x \<Longrightarrow> 0 \<le> i \<and> nat i < length g \<and> 0 \<le> j \<and> nat j < length (g ! nat i) \<and> g ! nat i ! nat j = x"
  by (auto simp: cellAt_def split: if_splits)

lemma cellAt_shape:
  "map length g' = map length g \<Longrightarrow> cellAt g' i j = None \<longleftrightarrow> cellAt g i j = None"
proof -
  assume a: "map length g' = map length g"
  then have l: "length g' = length g" using map_eq_imp_length_eq by blast
  have "length (g' ! k) = length (g ! k)" if "k < length g" for k
  proof -
    have "map length g' ! k = map length g ! k" using a by simp
    then show ?thesis using that l by simp
  qed
  then show ?thesis using l by (auto simp: cellAt_def)
qed

lemma in_concat_cellAt:
  "x \<in> set (concat g) \<longleftrightarrow> (\<exists>i j. cellAt g i j = Some x)"
proof
  assume "x \<in> set (concat g)"
  then obtain row where "row \<in> set g" "x \<in> set row" by auto
  then obtain a b where "a < length g" "g ! a = row" "b < length row" "row ! b = x"
    by (auto simp: in_set_conv_nth)
  then have "cellAt g (int a) (int b) = Some x" by (simp add: cellAt_def)
  then show "\<exists>i j. cellAt g i j = Some x" by blast
next
  assume "\<exists>i j. cellAt g i j = Some x"
  then obtain i j where "cellAt g i j = Some x" by blast
  from cellAt_SomeD[OF this] have "g ! nat i \<in> set g" "x \<in> set (g ! nat i)"
    using nth_mem by blast+
  then show "x \<in> set (concat g)" by auto
qed

lemma unrevealedSafeCells_zero:
  "unrevealedSafeCells g = 0 \<longleftrightarrow> (\<forall>i j x. cellAt g i j = Some x \<longrightarrow> isMine x \<or> isRevealed x)"
proof -
  have "unrevealedSafeCells g = 0 \<longleftrightarrow> (\<forall>x\<in>set (concat g). isMine x \<or> isRevealed x)"
    unfolding unrevealedSafeCells_def by (simp add: filter_empty_conv)
  also have "\<dots> \<longleftrightarrow> (\<forall>i j x. cellAt g i j = Some x \<longrightarrow> isMine x \<or> isRevealed x)"
    using in_concat_cellAt by blast
  finally show ?thesis .
qed

lemma count_update:
  assumes "k < length xs"
  shows "length (filter P (xs[k := y])) + (if P (xs ! k) then 1 else 0) =
         length (filter P xs) + (if P y then 1 else 0)"
proof -
  have "length (filter P xs) = length (filter P (take k xs @ xs ! k # drop (Suc k) xs))"
    using assms by (simp add: id_take_nth_drop[symmetric])
  then have "length (filter P xs) =
      length (filter P (take k xs)) + (if P (xs ! k) then 1 else 0) + length (filter P (drop (Suc k) xs))"
    by simp
  moreover have "length (filter P (xs[k := y])) =
      length (filter P (take k xs)) + (if P y then 1 else 0) + length (filter P (drop (Suc k) xs))"
    using assms by (simp add: upd_conv_take_nth_drop)
  ultimately show ?thesis by simp
qed

lemma count_setCell:
  assumes "cellAt g i j = Some x"
  shows "length (filter P (concat (setCell g i j y))) + (if P x then 1 else 0) =
         length (filter P (concat g)) + (if P y then 1 else 0)"
proof -
  from cellAt_SomeD[OF assms] have i: "nat i < length g" and j: "nat j < length (g ! nat i)"
    and x: "g ! nat i ! nat j = x" by auto
  let ?r = "g ! nat i" and ?r' = "(g ! nat i)[nat j := y]"
  have g: "g = take (nat i) g @ ?r # drop (Suc (nat i)) g" using i by (simp add: id_take_nth_drop)
  have g': "setCell g i j y = take (nat i) g @ ?r' # drop (Suc (nat i)) g"
    using i by (simp add: setCell_def upd_conv_take_nth_drop)
  have "length (filter P (concat g)) =
      length (filter P (concat (take (nat i) g))) + length (filter P ?r) +
      length (filter P (concat (drop (Suc (nat i)) g)))"
    by (subst g) simp
  moreover have "length (filter P (concat (setCell g i j y))) =
      length (filter P (concat (take (nat i) g))) + length (filter P ?r') +
      length (filter P (concat (drop (Suc (nat i)) g)))"
    by (subst g') simp
  moreover note count_update[OF j, of P y]
  ultimately show ?thesis using x by simp
qed

section \<open>Generating a board\<close>

lemma length_emptyGrid: "length (emptyGrid rws cls) = nat rws"
  by (simp add: emptyGrid_def)

lemma cellAt_emptyGrid:
  "cellAt (emptyGrid rws cls) i j =
     (if 0 \<le> i \<and> i < rws \<and> 0 \<le> j \<and> j < cls then Some (newCell i j) else None)"
  by (auto simp: cellAt_def emptyGrid_def split: if_splits)

lemma shape_emptyGrid: "map length (emptyGrid rws cls) = replicate (nat rws) (nat cls)"
  by (simp add: emptyGrid_def map_replicate_const comp_def)

lemma no_mines_emptyGrid: "filter isMine (concat (emptyGrid rws cls)) = []"
proof -
  have "\<not> isMine x" if "x \<in> set (concat (emptyGrid rws cls))" for x
  proof -
    from that obtain i j where "cellAt (emptyGrid rws cls) i j = Some x"
      using in_concat_cellAt by blast
    then show ?thesis by (auto simp: cellAt_emptyGrid newCell_def split: if_splits)
  qed
  then show ?thesis by (simp add: filter_empty_conv)
qed

lemma isMine_update_ex: "\<exists>m. x = x\<lparr>isMine := m\<rparr>"
  by (rule exI[of _ "isMine x"]) simp

text \<open>What \<open>placeMines\<close> leaves as it is, and what it adds.\<close>

lemma placeMines_result:
  assumes "placeMines g placed mns picks = Some (Inr g')" and "placed \<le> mns"
  shows "map length g' = map length g \<and>
     (\<forall>i j x. cellAt g i j = Some x \<longrightarrow>
        (\<exists>m. cellAt g' i j = Some (x\<lparr>isMine := m\<rparr>))) \<and>
     int (length (filter isMine (concat g'))) = int (length (filter isMine (concat g))) + (mns - placed)"
  using assms
proof (induction g placed mns picks rule: placeMines.induct)
  case (1 g placed mns)
  then show ?case using isMine_update_ex by (auto split: if_splits)
next
  case (2 g placed mns i j rest)
  show ?case
  proof (cases "placed < mns")
    case False
    with "2.prems" show ?thesis using isMine_update_ex by auto
  next
    case True
    with "2.prems" obtain cell where cell: "cellAt g i j = Some cell"
      by (auto split: option.splits)
    show ?thesis
    proof (cases "isMine cell")
      case True
      with \<open>placed < mns\<close> cell "2.prems" have "placeMines g placed mns rest = Some (Inr g')" by simp
      from "2.IH"(2)[OF \<open>placed < mns\<close> cell _ this] True "2.prems"(2) show ?thesis by simp
    next
      case False
      let ?g1 = "setCell g i j (cell\<lparr>isMine := True\<rparr>)"
      from False \<open>placed < mns\<close> cell "2.prems"
      have run: "placeMines ?g1 (placed + 1) mns rest = Some (Inr g')" by simp
      have le: "placed + 1 \<le> mns" using \<open>placed < mns\<close> by simp
      from "2.IH"(1)[OF \<open>placed < mns\<close> cell False run le]
      have ih: "map length g' = map length ?g1"
        "\<And>a b x. cellAt ?g1 a b = Some x \<Longrightarrow> \<exists>m. cellAt g' a b = Some (x\<lparr>isMine := m\<rparr>)"
        "int (length (filter isMine (concat g'))) =
           int (length (filter isMine (concat ?g1))) + (mns - (placed + 1))"
        by blast+
      have ex: "cellAt g i j \<noteq> None" using cell by simp
      have cnt: "length (filter isMine (concat ?g1)) = length (filter isMine (concat g)) + 1"
        using count_setCell[OF cell, of isMine "cell\<lparr>isMine := True\<rparr>"] False by simp
      have cells: "\<exists>m. cellAt g' a b = Some (x\<lparr>isMine := m\<rparr>)" if "cellAt g a b = Some x" for a b x
      proof (cases "a = i \<and> b = j")
        case True
        then have "cellAt ?g1 a b = Some (cell\<lparr>isMine := True\<rparr>)"
          using cellAt_setCell[OF ex] by simp
        from ih(2)[OF this] True that cell show ?thesis by auto
      next
        case False
        then have "cellAt ?g1 a b = Some x" using cellAt_setCell[OF ex, of _ a b] that by auto
        from ih(2)[OF this] show ?thesis .
      qed
      show ?thesis using ih(1,3) cnt cells by (simp add: length_setCell)
    qed
  qed
qed

section \<open>Placing the mines\<close>

lemma mineAt_setCell:
  assumes "cellAt g i j = Some cell"
  shows "mineAt (setCell g i j (cell\<lparr>isMine := True\<rparr>)) a b \<longleftrightarrow> (a = i \<and> b = j) \<or> mineAt g a b"
proof -
  have ex: "cellAt g i j \<noteq> None" using assms by simp
  show ?thesis using cellAt_setCell[OF ex, of _ a b] by (auto simp: mineAt_def)
qed

lemma placeMines_total:
  assumes "\<forall>p\<in>set picks. cellAt g (fst p) (snd p) \<noteq> None"
    and "mns - placed \<le> int (card {p \<in> set picks. \<not> mineAt g (fst p) (snd p)})"
  shows "\<exists>g'. placeMines g placed mns picks = Some (Inr g')"
  using assms
proof (induction g placed mns picks rule: placeMines.induct)
  case (1 g placed mns)
  then show ?case by simp
next
  case (2 g placed mns i j rest)
  show ?case
  proof (cases "placed < mns")
    case False
    then show ?thesis by simp
  next
    case True
    from "2.prems"(1) obtain cell where cell: "cellAt g i j = Some cell" by auto
    let ?A = "{p \<in> set rest. \<not> mineAt g (fst p) (snd p)}"
    show ?thesis
    proof (cases "isMine cell")
      case m: True
      have "{p \<in> set ((i, j) # rest). \<not> mineAt g (fst p) (snd p)} = ?A"
        using cell m by (auto simp: mineAt_def)
      with "2.prems" have "\<exists>g'. placeMines g placed mns rest = Some (Inr g')"
        by (intro "2.IH"(2)[OF True cell]) (simp_all add: m)
      then show ?thesis using True cell m by simp
    next
      case m: False
      let ?g1 = "setCell g i j (cell\<lparr>isMine := True\<rparr>)"
      have shape: "cellAt ?g1 a b = None \<longleftrightarrow> cellAt g a b = None" for a b
        by (rule cellAt_shape) (simp add: length_setCell)
      have B: "{p \<in> set rest. \<not> mineAt ?g1 (fst p) (snd p)} = ?A - {(i, j)}"
        using mineAt_setCell[OF cell] by auto
      have "{p \<in> set ((i, j) # rest). \<not> mineAt g (fst p) (snd p)} = insert (i, j) ?A"
        using cell m by (auto simp: mineAt_def)
      then have "mns - placed \<le> int (card (insert (i, j) ?A))" using "2.prems"(2) by simp
      also have "card (insert (i, j) ?A) \<le> card (?A - {(i, j)}) + 1"
        by (simp add: card.insert_remove)
      finally have "mns - (placed + 1) \<le> int (card {p \<in> set rest. \<not> mineAt ?g1 (fst p) (snd p)})"
        using B by simp
      moreover have "\<forall>p\<in>set rest. cellAt ?g1 (fst p) (snd p) \<noteq> None"
        using "2.prems"(1) shape by simp
      ultimately have "\<exists>g'. placeMines ?g1 (placed + 1) mns rest = Some (Inr g')"
        by (intro "2.IH"(1)[OF True cell m])
      then show ?thesis using True cell m by simp
    qed
  qed
qed

section \<open>The neighbour pass\<close>

lemma rectGrid_cellAt:
  "rectGrid g rws cls \<Longrightarrow> cellAt g i j \<noteq> None \<longleftrightarrow> 0 \<le> i \<and> i < rws \<and> 0 \<le> j \<and> j < cls"
  by (auto simp: rectGrid_def cellAt_def list_all_length)

lemma rectGrid_shape:
  assumes "map length g' = map length g"
  shows "rectGrid g' rws cls = rectGrid g rws cls"
proof -
  have "length g' = length g" using assms map_eq_imp_length_eq by blast
  moreover have "list_all (\<lambda>row. length row = n) g' = list_all (\<lambda>row. length row = n) g" for n
  proof -
    have "list_all (\<lambda>row. length row = n) g' = list_all (\<lambda>k. k = n) (map length g')"
      by (simp add: list_all_iff)
    also have "\<dots> = list_all (\<lambda>row. length row = n) g"
      unfolding assms by (simp add: list_all_iff)
    finally show ?thesis .
  qed
  ultimately show ?thesis by (simp add: rectGrid_def)
qed

lemma rectGrid_emptyGrid: "rectGrid (emptyGrid rws cls) rws cls"
  by (simp add: rectGrid_def emptyGrid_def list_all_iff)

lemma rectGrid_mineAt:
  "rectGrid g rws cls \<Longrightarrow>
   mineAt g a b \<longleftrightarrow> 0 \<le> a \<and> a < rws \<and> 0 \<le> b \<and> b < cls \<and> isMine (g ! nat a ! nat b)"
  using rectGrid_cellAt[of g rws cls a b]
  by (cases "cellAt g a b") (auto simp: mineAt_def dest: cellAt_SomeD)

lemma countMines_mineAt:
  assumes "rectGrid g rws cls"
  shows "countMines g rws cls i j = length (filter (\<lambda>(a, b). mineAt g a b) (neighbours i j))"
  unfolding countMines_def
  by (rule arg_cong[where f = length], rule filter_cong)
     (auto simp: rectGrid_mineAt[OF assms])

lemma countMines_adjacentMines:
  assumes "rectGrid g rws cls" and "\<not> mineAt g i j"
  shows "countMines g rws cls i j = adjacentMines g i j"
  unfolding countMines_mineAt[OF assms(1)] adjacentMines_def
  by (rule arg_cong[where f = length], rule filter_cong) (use assms(2) in auto)

lemma fold_nested:
  "fold (\<lambda>x. fold (f x) ys) xs s = fold (\<lambda>(x, y). f x y) (List.product xs ys) s"
proof (induction xs arbitrary: s)
  case Nil
  then show ?case by simp
next
  case (Cons x xs)
  have "fold (\<lambda>(x, y). f x y) (map (Pair x) ys) t = fold (f x) ys t" for t
    by (simp add: fold_map comp_def)
  then show ?case using Cons.IH by simp
qed

lemma passed_mineAt: "passed g rws cls D h \<Longrightarrow> mineAt h a b = mineAt g a b"
proof -
  assume p: "passed g rws cls D h"
  show ?thesis
  proof (cases "cellAt g a b")
    case None
    then have "cellAt h a b = None" using p cellAt_shape[of h g a b] by (simp add: passed_def)
    with None show ?thesis by (simp add: mineAt_def)
  next
    case (Some x)
    then show ?thesis using p by (simp add: passed_def mineAt_def)
  qed
qed

lemma passed_calcCell:
  assumes p: "passed g rws cls D h" and r: "rectGrid g rws cls"
    and c: "cellAt g i j \<noteq> None"
  shows "passed g rws cls (insert (i, j) D) (calcCell rws cls i j h)"
proof -
  from c obtain x where x: "cellAt g i j = Some x" by auto
  let ?n = "countMines g rws cls i j"
  let ?hx = "if (i, j) \<in> D \<and> \<not> isMine x then x\<lparr>neighborMines := ?n\<rparr> else x"
  have hx: "cellAt h i j = Some ?hx" using p x by (simp add: passed_def)
  then have nth: "h ! nat i ! nat j = ?hx" using cellAt_SomeD by blast
  have rh: "rectGrid h rws cls" using p r rectGrid_shape[of h g] by (simp add: passed_def)
  have cm: "countMines h rws cls i j = ?n"
    unfolding countMines_mineAt[OF rh] countMines_mineAt[OF r]
  proof -
    have "(\<lambda>(a, b). mineAt h a b) = (\<lambda>(a, b). mineAt g a b)"
      by (simp add: passed_mineAt[OF p])
    then show "length (filter (\<lambda>(a, b). mineAt h a b) (neighbours i j)) =
      length (filter (\<lambda>(a, b). mineAt g a b) (neighbours i j))" by simp
  qed
  show ?thesis
  proof (cases "isMine x")
    case True
    then have "calcCell rws cls i j h = h" using nth by (simp add: calcCell_def)
    moreover have "passed g rws cls (insert (i, j) D) h"
      using p x True unfolding passed_def by auto
    ultimately show ?thesis by simp
  next
    case False
    have ex: "cellAt h i j \<noteq> None" using hx by simp
    have eq: "calcCell rws cls i j h = setCell h i j (x\<lparr>neighborMines := ?n\<rparr>)"
      using False nth cm by (simp add: calcCell_def)
    show ?thesis
      unfolding eq passed_def
    proof (intro conjI allI impI)
      show "map length (setCell h i j (x\<lparr>neighborMines := ?n\<rparr>)) = map length g"
        using p by (simp add: length_setCell passed_def)
    next
      fix a b y assume y: "cellAt g a b = Some y"
      show "cellAt (setCell h i j (x\<lparr>neighborMines := ?n\<rparr>)) a b =
        Some (if (a, b) \<in> insert (i, j) D \<and> \<not> isMine y
          then y\<lparr>neighborMines := countMines g rws cls a b\<rparr> else y)"
      proof (cases "a = i \<and> b = j")
        case True
        then show ?thesis using cellAt_setCell[OF ex, of _ a b] x y False by simp
      next
        case ne: False
        then have "cellAt (setCell h i j (x\<lparr>neighborMines := ?n\<rparr>)) a b = cellAt h a b"
          using cellAt_setCell[OF ex, of _ a b] by auto
        then show ?thesis using p y ne unfolding passed_def by auto
      qed
    qed
  qed
qed

lemma passed_fold:
  assumes r: "rectGrid g rws cls"
  shows "passed g rws cls D h \<Longrightarrow> \<forall>(a, b)\<in>set ps. cellAt g (int a) (int b) \<noteq> None \<Longrightarrow>
     passed g rws cls (D \<union> (\<lambda>(a, b). (int a, int b)) ` set ps)
       (fold (\<lambda>(a, b). calcCell rws cls (int a) (int b)) ps h)"
proof (induction ps arbitrary: D h)
  case Nil
  then show ?case by simp
next
  case (Cons p ps)
  obtain a b where ab: "p = (a, b)" by (cases p)
  have "passed g rws cls (insert (int a, int b) D) (calcCell rws cls (int a) (int b) h)"
    using passed_calcCell[OF Cons.prems(1) r] Cons.prems(2) ab by simp
  from Cons.IH[OF this] Cons.prems(2) show ?case by (simp add: ab)
qed

lemma calcNeighbors_cells:
  assumes r: "rectGrid g rws cls"
  shows "map length (calcNeighbors rws cls g) = map length g"
    and "cellAt g i j = Some x \<Longrightarrow>
     cellAt (calcNeighbors rws cls g) i j =
       Some (if isMine x then x else x\<lparr>neighborMines := adjacentMines g i j\<rparr>)"
proof -
  let ?ps = "List.product [0..<nat rws] [0..<nat cls]"
  have init: "passed g rws cls {} g" by (simp add: passed_def)
  have inr: "\<forall>(a, b)\<in>set ?ps. cellAt g (int a) (int b) \<noteq> None"
    using rectGrid_cellAt[OF r] by auto
  have fin: "passed g rws cls ({} \<union> (\<lambda>(a, b). (int a, int b)) ` set ?ps) (calcNeighbors rws cls g)"
    unfolding calcNeighbors_def fold_nested by (rule passed_fold[OF r init inr])
  then show "map length (calcNeighbors rws cls g) = map length g" by (simp add: passed_def)
  assume x: "cellAt g i j = Some x"
  then have "0 \<le> i \<and> i < rws \<and> 0 \<le> j \<and> j < cls" using rectGrid_cellAt[OF r, of i j] by simp
  then have "(nat i, nat j) \<in> set ?ps" by auto
  then have mem: "(i, j) \<in> (\<lambda>(a, b). (int a, int b)) ` set ?ps"
    using \<open>0 \<le> i \<and> i < rws \<and> 0 \<le> j \<and> j < cls\<close>
    by (intro image_eqI[where x = "(nat i, nat j)"]) simp_all
  have "\<not> isMine x \<Longrightarrow> countMines g rws cls i j = adjacentMines g i j"
    using countMines_adjacentMines[OF r, of i j] x by (simp add: mineAt_def)
  then show "cellAt (calcNeighbors rws cls g) i j =
       Some (if isMine x then x else x\<lparr>neighborMines := adjacentMines g i j\<rparr>)"
    using fin x mem unfolding passed_def by auto
qed

section \<open>Adjacent cells\<close>

lemma neighbours_list:
  "neighbours i j = [(i - 1, j - 1), (i - 1, j), (i - 1, j + 1), (i, j - 1), (i, j), (i, j + 1),
     (i + 1, j - 1), (i + 1, j), (i + 1, j + 1)]"
  by (simp add: neighbours_def offsets_def)

lemma distinct_neighbours: "distinct (neighbours i j)"
  by (simp add: neighbours_list)

lemma abs_le_one: "\<bar>a - i\<bar> \<le> 1 \<longleftrightarrow> a = i - 1 \<or> a = i \<or> a = i + 1" for a i :: int
  by arith

lemma set_neighbours: "set (neighbours i j) = {(a, b). \<bar>a - i\<bar> \<le> 1 \<and> \<bar>b - j\<bar> \<le> 1}"
proof -
  have "set (neighbours i j) = {i - 1, i, i + 1} \<times> {j - 1, j, j + 1}"
    unfolding neighbours_list by auto
  also have "\<dots> = {(a, b). \<bar>a - i\<bar> \<le> 1 \<and> \<bar>b - j\<bar> \<le> 1}"
    by (auto simp: abs_le_one)
  finally show ?thesis .
qed

lemma in_neighbours_sym: "(a, b) \<in> set (neighbours i j) \<longleftrightarrow> (i, j) \<in> set (neighbours a b)"
  by (simp add: set_neighbours abs_minus_commute)

lemma adjacentMines_card:
  "adjacentMines g i j = card {(a, b). max \<bar>a - i\<bar> \<bar>b - j\<bar> = 1 \<and> mineAt g a b}"
proof -
  have "adjacentMines g i j =
      card ({p. case p of (a, b) \<Rightarrow> (a, b) \<noteq> (i, j) \<and> mineAt g a b} \<inter> set (neighbours i j))"
    unfolding adjacentMines_def by (rule distinct_length_filter[OF distinct_neighbours])
  also have "{p. case p of (a, b) \<Rightarrow> (a, b) \<noteq> (i, j) \<and> mineAt g a b} \<inter> set (neighbours i j) =
      {(a, b). max \<bar>a - i\<bar> \<bar>b - j\<bar> = 1 \<and> mineAt g a b}"
  proof -
    have key: "((a, b) \<noteq> (i, j) \<and> \<bar>a - i\<bar> \<le> 1 \<and> \<bar>b - j\<bar> \<le> 1) \<longleftrightarrow> max \<bar>a - i\<bar> \<bar>b - j\<bar> = 1"
      for a b :: int
      by (simp add: max_def) arith
    show ?thesis unfolding set_neighbours using key by auto
  qed
  finally show ?thesis .
qed

lemma adjacentMines_zero:
  assumes "adjacentMines g i j = 0" and "(a, b) \<in> set (neighbours i j)" and "(a, b) \<noteq> (i, j)"
  shows "\<not> mineAt g a b"
proof
  assume "mineAt g a b"
  then have "(a, b) \<in> set (filter (\<lambda>(a, b). (a, b) \<noteq> (i, j) \<and> mineAt g a b) (neighbours i j))"
    using assms(2,3) by simp
  then have "filter (\<lambda>(a, b). (a, b) \<noteq> (i, j) \<and> mineAt g a b) (neighbours i j) \<noteq> []"
    by (metis empty_iff empty_set)
  then show False using assms(1) unfolding adjacentMines_def by simp
qed

section \<open>Properties of a generated board\<close>

lemma map_map_cellAt:
  assumes "map length g' = map length g"
    and "\<And>i j x x'. cellAt g i j = Some x \<Longrightarrow> cellAt g' i j = Some x' \<Longrightarrow> f x' = f x"
  shows "map (map f) g' = map (map f) g"
proof (rule nth_equalityI)
  have len: "length g' = length g" using assms(1) map_eq_imp_length_eq by blast
  then show "length (map (map f) g') = length (map (map f) g)" by simp
  fix k assume "k < length (map (map f) g')"
  then have k: "k < length g" using len by simp
  have lk: "length (g' ! k) = length (g ! k)"
  proof -
    have "map length g' ! k = map length g ! k" using assms(1) by simp
    then show ?thesis using k len by simp
  qed
  have "map f (g' ! k) = map f (g ! k)"
  proof (rule nth_equalityI)
    show "length (map f (g' ! k)) = length (map f (g ! k))" using lk by simp
    fix l assume "l < length (map f (g' ! k))"
    then have l: "l < length (g ! k)" using lk by simp
    have "cellAt g (int k) (int l) = Some (g ! k ! l)" "cellAt g' (int k) (int l) = Some (g' ! k ! l)"
      using k l lk len by (simp_all add: cellAt_def)
    from assms(2)[OF this] show "map f (g' ! k) ! l = map f (g ! k) ! l"
      using l lk by simp
  qed
  then show "map (map f) g' ! k = map (map f) g ! k" using k len by simp
qed

lemma count_concat_map: "length (filter P (concat g)) = length (filter (\<lambda>b. b) (concat (map (map P) g)))"
proof -
  have "concat (map (map P) g) = map P (concat g)" by (simp add: map_concat)
  then show ?thesis by (simp add: filter_map comp_def)
qed

lemma count_cong_cellAt:
  assumes "map length g' = map length g"
    and "\<And>i j x x'. cellAt g i j = Some x \<Longrightarrow> cellAt g' i j = Some x' \<Longrightarrow> P x' = P x"
  shows "length (filter P (concat g')) = length (filter P (concat g))"
  using map_map_cellAt[of g' g P, OF assms] by (simp add: count_concat_map[of P])

lemma timeLimitFor_cases:
  "timeLimitFor rws cls =
     (if rws = 16 \<and> cls = 16 then 300 else if rws = 16 \<and> cls = 30 then 600 else 120)"
  by (simp add: timeLimitFor_def)

lemma createNewGame_grid:
  assumes c: "createNewGame now rws cls mns picks = Some (Inr s)" and m: "0 \<le> mns"
  shows "wfState s"
    and "length (filter isMine (concat (grid s))) = nat mns"
    and "cellAt (grid s) i j = Some x \<Longrightarrow>
         \<not> isRevealed x \<and> \<not> isFlagged x \<and>
         (\<not> isMine x \<longrightarrow> neighborMines x = adjacentMines (grid s) i j)"
proof -
  from c obtain g where g: "placeMines (emptyGrid rws cls) 0 mns picks = Some (Inr g)"
    and s: "grid s = calcNeighbors rws cls g" "rows s = rws" "cols s = cls"
    by (auto simp: createNewGame_def split: option.splits sum.splits)
  note pm = placeMines_result[OF g m]
  have rg: "rectGrid g rws cls"
    using pm rectGrid_shape[of g "emptyGrid rws cls"] rectGrid_emptyGrid by simp
  note cn = calcNeighbors_cells[OF rg]
  show "wfState s"
    using rg rectGrid_shape[OF cn(1)] s by (simp add: wfState_def)
  have mines: "isMine x' = isMine y" if "cellAt g a b = Some y" "cellAt (grid s) a b = Some x'" for a b y x'
    using cn(2)[OF that(1)] that(2) s(1) by (auto split: if_splits)
  have "length (filter isMine (concat (grid s))) = length (filter isMine (concat g))"
    by (rule count_cong_cellAt) (use cn(1) s(1) mines in auto)
  moreover have "int (length (filter isMine (concat g))) = mns"
    using pm by (simp add: no_mines_emptyGrid)
  ultimately show "length (filter isMine (concat (grid s))) = nat mns"
    by linarith
  assume x: "cellAt (grid s) i j = Some x"
  then have "cellAt g i j \<noteq> None" using cellAt_shape[OF cn(1), of i j] s(1) by simp
  then obtain y where y: "cellAt g i j = Some y" by auto
  then have "cellAt (emptyGrid rws cls) i j \<noteq> None"
    using cellAt_shape[of g "emptyGrid rws cls" i j] pm by simp
  then have e: "cellAt (emptyGrid rws cls) i j = Some (newCell i j)"
    by (simp add: cellAt_emptyGrid split: if_splits)
  with pm y obtain mm where ym: "y = (newCell i j)\<lparr>isMine := mm\<rparr>" by fastforce
  have xy: "x = (if isMine y then y else y\<lparr>neighborMines := adjacentMines g i j\<rparr>)"
    using cn(2)[OF y] x s(1) by simp
  have same: "mineAt (grid s) a b = mineAt g a b" for a b
  proof (cases "cellAt g a b")
    case None
    then show ?thesis using cellAt_shape[OF cn(1), of a b] s(1) by (simp add: mineAt_def)
  next
    case (Some z)
    then show ?thesis using cn(2)[OF Some] s(1) by (simp add: mineAt_def)
  qed
  have "adjacentMines (grid s) i j = adjacentMines g i j"
    unfolding adjacentMines_def by (simp add: same)
  then show "\<not> isRevealed x \<and> \<not> isFlagged x \<and>
         (\<not> isMine x \<longrightarrow> neighborMines x = adjacentMines (grid s) i j)"
    using xy ym by (auto simp: newCell_def)
qed

lemma createNewGame_total:
  assumes "\<forall>p\<in>set picks. 0 \<le> fst p \<and> fst p < rws \<and> 0 \<le> snd p \<and> snd p < cls"
    and "mns \<le> int (card (set picks))"
  shows "\<exists>s. createNewGame now rws cls mns picks = Some (Inr s)"
proof -
  have "\<forall>p\<in>set picks. cellAt (emptyGrid rws cls) (fst p) (snd p) \<noteq> None"
    using assms(1) by (simp add: cellAt_emptyGrid)
  moreover have "{p \<in> set picks. \<not> mineAt (emptyGrid rws cls) (fst p) (snd p)} = set picks"
    by (auto simp: mineAt_def cellAt_emptyGrid newCell_def)
  ultimately have "\<exists>g'. placeMines (emptyGrid rws cls) 0 mns picks = Some (Inr g')"
    using assms(2) by (intro placeMines_total) simp_all
  then show ?thesis by (auto simp: createNewGame_def)
qed

section \<open>Generation is correct\<close>

text \<open>
  Claim C7. For positive \<open>rows\<close> and \<open>cols\<close> and \<open>0 \<le> mines < rows * cols\<close>,
  \<open>createNewGame\<close> returns as soon as the random draws (each within the grid) have named
  \<open>mines\<close> distinct cells, and whatever it returns is a board of \<open>rows\<close> by \<open>cols\<close> cells
  with exactly \<open>mines\<close> mines, on which every cell is unrevealed and unflagged and every
  cell that is not a mine carries the number of mines among the cells at Chebyshev
  distance 1 inside the grid; the status is \<open>playing\<close>, \<open>startTime\<close> is the clock value,
  \<open>endTime\<close> is \<open>null\<close>, and \<open>timeLimit\<close> is 300 for 16 by 16, 600 for 16 by 30 and 120
  for every other size.
\<close>

theorem createNewGame_correct:
  assumes "0 < rws" and "0 < cls" and "0 \<le> mns" and "mns < rws * cls"
  shows "((\<forall>p\<in>set picks. 0 \<le> fst p \<and> fst p < rws \<and> 0 \<le> snd p \<and> snd p < cls) \<and>
          mns \<le> int (card (set picks)) \<longrightarrow>
            (\<exists>s. createNewGame now rws cls mns picks = Some (Inr s))) \<and>
     (\<forall>s. createNewGame now rws cls mns picks = Some (Inr s) \<longrightarrow>
        length (filter isMine (concat (grid s))) = nat mns \<and>
        wfState s \<and> rows s = rws \<and> cols s = cls \<and> mines s = mns \<and>
        (\<forall>i j x. cellAt (grid s) i j = Some x \<longrightarrow>
           \<not> isRevealed x \<and> \<not> isFlagged x \<and>
           (\<not> isMine x \<longrightarrow>
              neighborMines x = card {(a, b). max \<bar>a - i\<bar> \<bar>b - j\<bar> = 1 \<and> mineAt (grid s) a b})) \<and>
        status s = Playing \<and> startTime s = Some now \<and> endTime s = None \<and>
        timeLimit s =
          (if rws = 16 \<and> cls = 16 then 300 else if rws = 16 \<and> cls = 30 then 600 else 120))"
proof (intro conjI allI impI)
  assume "(\<forall>p\<in>set picks. 0 \<le> fst p \<and> fst p < rws \<and> 0 \<le> snd p \<and> snd p < cls) \<and>
          mns \<le> int (card (set picks))"
  then show "\<exists>s. createNewGame now rws cls mns picks = Some (Inr s)"
    using createNewGame_total by blast
next
  fix s assume c: "createNewGame now rws cls mns picks = Some (Inr s)"
  note f = createNewGame_fields[OF c] and g = createNewGame_grid[OF c assms(3)]
  show "length (filter isMine (concat (grid s))) = nat mns" by (rule g(2))
  show "wfState s" by (rule g(1))
  show "rows s = rws" "cols s = cls" "mines s = mns" "status s = Playing"
    "startTime s = Some now" "endTime s = None"
    by (rule f)+
  show "timeLimit s =
      (if rws = 16 \<and> cls = 16 then 300 else if rws = 16 \<and> cls = 30 then 600 else 120)"
    using f(7) by (simp add: timeLimitFor_cases)
  fix i j x assume x: "cellAt (grid s) i j = Some x"
  show "\<not> isRevealed x" "\<not> isFlagged x" using g(3)[OF x] by simp_all
  assume "\<not> isMine x"
  then show "neighborMines x = card {(a, b). max \<bar>a - i\<bar> \<bar>b - j\<bar> = 1 \<and> mineAt (grid s) a b}"
    using g(3)[OF x] by (simp add: adjacentMines_card)
qed

theorem createNewGame_correct_witness:
  "(0::int) < 2 \<and> (0::int) < 3 \<and> (0::int) \<le> 2 \<and> (2::int) < 2 * 3 \<and>
   (\<exists>s. createNewGame 1000 2 3 2 [(0, 0), (0, 0), (1, 2)] = Some (Inr s) \<and>
      length (filter isMine (concat (grid s))) = 2 \<and> wfState s \<and> status s = Playing \<and>
      endTime s = None \<and> timeLimit s = 120)"
proof -
  have h: "(0::int) < 2" "(0::int) < 3" "(0::int) \<le> 2" "(2::int) < 2 * 3" by simp_all
  have p: "(\<forall>p\<in>set [(0, 0), (0, 0), (1, 2)]. 0 \<le> fst p \<and> fst p < (2::int) \<and> 0 \<le> snd p \<and> snd p < (3::int)) \<and>
     (2::int) \<le> int (card (set [(0::int, 0::int), (0, 0), (1, 2)]))"
    by simp
  from createNewGame_correct[OF h, of "[(0, 0), (0, 0), (1, 2)]" 1000] p
  show ?thesis by auto
qed

section \<open>Unfolding revealCell\<close>

lemma flood_loop:
  "forEach offsets (\<lambda>dr. forEach offsets (\<lambda>dc s'.
      if 0 \<le> i + dr \<and> i + dr < rows s' \<and> 0 \<le> j + dc \<and> j + dc < cols s'
      then revealCell n now (i + dr) (j + dc) s' else Some (Inr s'))) s1 =
   forEach (neighbours i j) (visit n now) s1"
proof -
  have m: "forEach (map h xs) f t = forEach xs (\<lambda>x. f (h x)) t" for h :: "int \<times> int \<Rightarrow> int \<times> int" and xs f and t :: GameState
    by (induction xs arbitrary: t) (auto split: option.splits sum.splits)
  have n: "neighbours i j = map (\<lambda>(dr, dc). (i + dr, j + dc)) (concat (map (\<lambda>dr. map (\<lambda>dc. (dr, dc)) offsets) offsets))"
    by (simp add: neighbours_def offsets_def)
  show ?thesis
    unfolding forEach_nested n m
    by (rule arg_cong[where f = "\<lambda>f. forEach _ f s1"]) (auto simp: visit_def fun_eq_iff)
qed

lemma revealCell_Suc:
  "revealCell (Suc n) now i j s =
     (if status s \<noteq> Playing then Some (Inr s)
      else case cellAt (grid s) i j of
        None \<Rightarrow> Some (Inl TypeError)
      | Some cell \<Rightarrow>
          if isRevealed cell \<or> isFlagged cell then Some (Inr s)
          else if isMine cell then
            Some (Inr (s\<lparr>status := Lost, endTime := Some now, grid := revealAllMines (grid s)\<rparr>))
          else
            (case (if neighborMines cell = 0 then
                     forEach (neighbours i j) (visit n now)
                       (s\<lparr>grid := setCell (grid s) i j (cell\<lparr>isRevealed := True\<rparr>)\<rparr>)
                   else Some (Inr (s\<lparr>grid := setCell (grid s) i j (cell\<lparr>isRevealed := True\<rparr>)\<rparr>))) of
               None \<Rightarrow> None
             | Some (Inl e) \<Rightarrow> Some (Inl e)
             | Some (Inr s2) \<Rightarrow> Some (Inr (checkWin now s2))))"
proof (cases "cellAt (grid s) i j")
  case None
  then show ?thesis by simp
next
  case (Some cell)
  show ?thesis
  proof (cases "isMine cell")
    case True
    then show ?thesis using Some by (simp add: revealAllMines_setCell)
  next
    case False
    have "revealCell (Suc n) now i j s =
      (if status s \<noteq> Playing then Some (Inr s)
       else if isRevealed cell \<or> isFlagged cell then Some (Inr s)
       else case if neighborMines cell = 0
          then forEach offsets (\<lambda>dr. forEach offsets (\<lambda>dc s'.
              if 0 \<le> i + dr \<and> i + dr < rows s' \<and> 0 \<le> j + dc \<and> j + dc < cols s'
              then revealCell n now (i + dr) (j + dc) s' else Some (Inr s')))
                (s\<lparr>grid := setCell (grid s) i j (cell\<lparr>isRevealed := True\<rparr>)\<rparr>)
          else Some (Inr (s\<lparr>grid := setCell (grid s) i j (cell\<lparr>isRevealed := True\<rparr>)\<rparr>)) of
            None \<Rightarrow> None | Some (Inl e) \<Rightarrow> Some (Inl e)
          | Some (Inr s2) \<Rightarrow> Some (Inr (checkWin now s2)))"
      using Some False by (simp add: Let_def)
    then show ?thesis using Some False unfolding flood_loop by simp
  qed
qed

declare revealCell.simps(2) [simp del]

lemma revealCell_cases [consumes 1, case_names idle blocked mine number flood]:
  assumes "revealCell (Suc n) now i j s = Some (Inr s')"
  obtains "status s \<noteq> Playing" "s' = s"
  | cell where "status s = Playing" "cellAt (grid s) i j = Some cell"
      "isRevealed cell \<or> isFlagged cell" "s' = s"
  | cell where "status s = Playing" "cellAt (grid s) i j = Some cell"
      "\<not> isRevealed cell" "\<not> isFlagged cell" "isMine cell"
      "s' = s\<lparr>status := Lost, endTime := Some now, grid := revealAllMines (grid s)\<rparr>"
  | cell where "status s = Playing" "cellAt (grid s) i j = Some cell"
      "\<not> isRevealed cell" "\<not> isFlagged cell" "\<not> isMine cell" "neighborMines cell \<noteq> 0"
      "s' = checkWin now (s\<lparr>grid := setCell (grid s) i j (cell\<lparr>isRevealed := True\<rparr>)\<rparr>)"
  | cell s2 where "status s = Playing" "cellAt (grid s) i j = Some cell"
      "\<not> isRevealed cell" "\<not> isFlagged cell" "\<not> isMine cell" "neighborMines cell = 0"
      "forEach (neighbours i j) (visit n now)
         (s\<lparr>grid := setCell (grid s) i j (cell\<lparr>isRevealed := True\<rparr>)\<rparr>) = Some (Inr s2)"
      "s' = checkWin now s2"
proof (cases "status s = Playing")
  case False
  then have "s' = s" using assms by (simp add: revealCell_Suc)
  with False show ?thesis by (rule that(1))
next
  case p: True
  then obtain cell where cell: "cellAt (grid s) i j = Some cell"
    using assms by (auto simp: revealCell_Suc split: option.splits)
  show ?thesis
  proof (cases "isRevealed cell \<or> isFlagged cell")
    case True
    then have "s' = s" using assms p cell by (simp add: revealCell_Suc)
    with p cell True show ?thesis by (rule that(2))
  next
    case o: False
    then have o1: "\<not> isRevealed cell" and o2: "\<not> isFlagged cell" by simp_all
    show ?thesis
    proof (cases "isMine cell")
      case True
      then have "s' = s\<lparr>status := Lost, endTime := Some now, grid := revealAllMines (grid s)\<rparr>"
        using assms p cell o by (simp add: revealCell_Suc)
      with p cell o1 o2 True show ?thesis by (rule that(3))
    next
      case m: False
      show ?thesis
      proof (cases "neighborMines cell = 0")
        case False
        then have "s' = checkWin now (s\<lparr>grid := setCell (grid s) i j (cell\<lparr>isRevealed := True\<rparr>)\<rparr>)"
          using assms p cell o m by (simp add: revealCell_Suc)
        with p cell o1 o2 m False show ?thesis by (rule that(4))
      next
        case True
        have "(case forEach (neighbours i j) (visit n now)
                 (s\<lparr>grid := setCell (grid s) i j (cell\<lparr>isRevealed := True\<rparr>)\<rparr>) of
               None \<Rightarrow> None
             | Some (Inl e) \<Rightarrow> Some (Inl e)
             | Some (Inr s2) \<Rightarrow> Some (Inr (checkWin now s2))) = Some (Inr s')"
          using assms p cell o m True by (simp add: revealCell_Suc)
        then obtain s2 where
          "forEach (neighbours i j) (visit n now)
             (s\<lparr>grid := setCell (grid s) i j (cell\<lparr>isRevealed := True\<rparr>)\<rparr>) = Some (Inr s2)"
          "s' = checkWin now s2"
          by (auto split: option.splits sum.splits)
        with p cell o1 o2 m True show ?thesis by (rule that(5))
      qed
    qed
  qed
qed

section \<open>Reveal only uncovers cells\<close>

lemma reveal_update_ex: "\<exists>r. x = x\<lparr>isRevealed := r\<rparr> \<and> (isRevealed x \<longrightarrow> r)"
  by (rule exI[of _ "isRevealed x"]) simp

lemma grew_refl: "grew g g"
  unfolding grew_def using reveal_update_ex by auto

lemma grew_trans:
  assumes "grew g g'" and "grew g' g''"
  shows "grew g g''"
  unfolding grew_def
proof (intro conjI allI impI)
  show "map length g'' = map length g" using assms by (simp add: grew_def)
next
  fix i j x assume "cellAt g i j = Some x"
  with assms(1) obtain r where r: "cellAt g' i j = Some (x\<lparr>isRevealed := r\<rparr>)" "isRevealed x \<longrightarrow> r"
    unfolding grew_def by blast
  with assms(2) obtain r' where "cellAt g'' i j = Some (x\<lparr>isRevealed := r, isRevealed := r'\<rparr>)"
    "r \<longrightarrow> r'"
    unfolding grew_def by fastforce
  then show "\<exists>r. cellAt g'' i j = Some (x\<lparr>isRevealed := r\<rparr>) \<and> (isRevealed x \<longrightarrow> r)"
    using r(2) by auto
qed

lemma grew_setCell:
  assumes "cellAt g i j = Some cell"
  shows "grew g (setCell g i j (cell\<lparr>isRevealed := True\<rparr>))"
  unfolding grew_def
proof (intro conjI allI impI)
  show "map length (setCell g i j (cell\<lparr>isRevealed := True\<rparr>)) = map length g"
    by (rule length_setCell)
next
  fix a b x assume x: "cellAt g a b = Some x"
  have ex: "cellAt g i j \<noteq> None" using assms by simp
  show "\<exists>r. cellAt (setCell g i j (cell\<lparr>isRevealed := True\<rparr>)) a b = Some (x\<lparr>isRevealed := r\<rparr>) \<and>
     (isRevealed x \<longrightarrow> r)"
  proof (cases "a = i \<and> b = j")
    case True
    then show ?thesis using cellAt_setCell[OF ex, of _ a b] x assms by auto
  next
    case False
    then have "cellAt (setCell g i j (cell\<lparr>isRevealed := True\<rparr>)) a b = Some x"
      using cellAt_setCell[OF ex, of _ a b] x by auto
    then show ?thesis using reveal_update_ex[of x] by auto
  qed
qed

lemma grew_revealAllMines: "grew g (revealAllMines g)"
  unfolding grew_def
proof (intro conjI allI impI)
  show "map length (revealAllMines g) = map length g" by (simp add: revealAllMines_def)
next
  fix a b x assume x: "cellAt g a b = Some x"
  show "\<exists>r. cellAt (revealAllMines g) a b = Some (x\<lparr>isRevealed := r\<rparr>) \<and> (isRevealed x \<longrightarrow> r)"
  proof (cases "isMine x")
    case True
    then show ?thesis using x by (auto simp: cellAt_revealAllMines)
  next
    case False
    then show ?thesis using x reveal_update_ex[of x] by (auto simp: cellAt_revealAllMines)
  qed
qed

lemma grew_cellAt:
  assumes "grew g g'" and "cellAt g' i j = Some x'"
  obtains x where "cellAt g i j = Some x" "x' = x\<lparr>isRevealed := isRevealed x'\<rparr>"
    "isRevealed x \<longrightarrow> isRevealed x'"
proof -
  have "cellAt g i j \<noteq> None" using assms cellAt_shape[of g' g i j] by (simp add: grew_def)
  then obtain x where x: "cellAt g i j = Some x" by auto
  with assms obtain r where "x' = x\<lparr>isRevealed := r\<rparr>" "isRevealed x \<longrightarrow> r"
    unfolding grew_def by fastforce
  then have "x' = x\<lparr>isRevealed := isRevealed x'\<rparr>" "isRevealed x \<longrightarrow> isRevealed x'" by simp_all
  with x show ?thesis by (rule that)
qed

lemma grew_cellAt_fwd:
  assumes "grew g g'" and "cellAt g i j = Some x"
  obtains x' where "cellAt g' i j = Some x'" "x' = x\<lparr>isRevealed := isRevealed x'\<rparr>"
    "isRevealed x \<longrightarrow> isRevealed x'"
proof -
  from assms obtain r where "cellAt g' i j = Some (x\<lparr>isRevealed := r\<rparr>)" "isRevealed x \<longrightarrow> r"
    unfolding grew_def by blast
  then show ?thesis using that[of "x\<lparr>isRevealed := r\<rparr>"] by simp
qed

lemma evolves_refl: "evolves s s"
  by (simp add: evolves_def grew_refl)

lemma evolves_trans: "evolves s s' \<Longrightarrow> evolves s' s'' \<Longrightarrow> evolves s s''"
  unfolding evolves_def using grew_trans by auto

lemma evolves_checkWin: "evolves s (checkWin now s)"
  by (simp add: evolves_def checkWin_def grew_refl)

lemma evolves_reveal:
  "cellAt (grid s) i j = Some cell \<Longrightarrow>
   evolves s (s\<lparr>grid := setCell (grid s) i j (cell\<lparr>isRevealed := True\<rparr>)\<rparr>)"
  by (simp add: evolves_def grew_setCell)

lemma evolves_lost:
  "evolves s (s\<lparr>status := Lost, endTime := Some now, grid := revealAllMines (grid s)\<rparr>)"
  by (simp add: evolves_def grew_revealAllMines)

lemma revealCell_evolves:
  "revealCell n now i j s = Some (Inr s') \<Longrightarrow> evolves s s'"
proof (induction n arbitrary: i j s s')
  case 0
  then show ?case by simp
next
  case (Suc n)
  have v: "evolves a b" if "visit n now p a = Some (Inr b)" for p a b
    using that Suc.IH[of "fst p" "snd p" a b] by (auto simp: visit_def evolves_refl split: if_splits)
  from Suc.prems show ?case
  proof (cases rule: revealCell_cases)
    case idle
    then show ?thesis by (simp add: evolves_refl)
  next
    case (blocked cell)
    then show ?thesis by (simp add: evolves_refl)
  next
    case (mine cell)
    then show ?thesis by (simp add: evolves_lost)
  next
    case (number cell)
    then show ?thesis using evolves_trans[OF evolves_reveal evolves_checkWin] by simp
  next
    case (flood cell s2)
    let ?s1 = "s\<lparr>grid := setCell (grid s) i j (cell\<lparr>isRevealed := True\<rparr>)\<rparr>"
    have "evolves s s2"
    proof (rule forEach_inv[OF flood(7), where I = "evolves s"])
      show "evolves s ?s1" using flood(2) by (rule evolves_reveal)
    next
      fix x a b assume "evolves s a" "visit n now x a = Some (Inr b)"
      then show "evolves s b" using v evolves_trans by blast
    qed
    then show ?thesis using flood(8) evolves_trans[OF _ evolves_checkWin] by simp
  qed
qed

section \<open>Reveal returns\<close>

lemma allCells_rect: "rectGrid g rws cls \<Longrightarrow> allCells g = nat rws * nat cls"
proof -
  assume r: "rectGrid g rws cls"
  have "sum_list (map length xs) = length xs * k" if "\<forall>row\<in>set xs. length row = k" for xs :: "Cell list list" and k
    using that by (induction xs) auto
  from this[of g "nat cls"] r have "sum_list (map length g) = nat rws * nat cls"
    by (simp add: rectGrid_def list_all_iff)
  then show ?thesis by (simp add: allCells_def length_concat)
qed

lemma hidden_bound:
  assumes "rectGrid g rws cls"
  shows "finite (hidden g)" and "card (hidden g) \<le> allCells g"
proof -
  have sub: "hidden g \<subseteq> {0..<rws} \<times> {0..<cls}"
  proof
    fix p assume "p \<in> hidden g"
    then obtain a b x where p: "p = (a, b)" and "cellAt g a b = Some x"
      by (auto simp: hidden_def)
    then have "cellAt g a b \<noteq> None" by simp
    then have "0 \<le> a \<and> a < rws \<and> 0 \<le> b \<and> b < cls"
      using rectGrid_cellAt[OF assms, of a b] by simp
    then show "p \<in> {0..<rws} \<times> {0..<cls}" using p by simp
  qed
  then show "finite (hidden g)" by (rule finite_subset) simp
  have "card (hidden g) \<le> card ({0..<rws} \<times> {0..<cls})"
    by (rule card_mono[OF _ sub]) simp
  then show "card (hidden g) \<le> allCells g"
    by (simp add: allCells_rect[OF assms])
qed

lemma evolves_wfState: "evolves s s' \<Longrightarrow> wfState s \<Longrightarrow> wfState s'"
  using rectGrid_shape[of "grid s'" "grid s"] by (simp add: evolves_def grew_def wfState_def)

lemma grew_hidden: "grew g g' \<Longrightarrow> hidden g' \<subseteq> hidden g"
proof
  fix p assume g: "grew g g'" and "p \<in> hidden g'"
  then obtain a b x' where p: "p = (a, b)" "cellAt g' a b = Some x'" "\<not> isRevealed x'"
    by (auto simp: hidden_def)
  from grew_cellAt[OF g p(2)] p(3) show "p \<in> hidden g"
    unfolding p(1) hidden_def by blast
qed

lemma hidden_setCell:
  assumes "cellAt g i j = Some cell"
  shows "hidden (setCell g i j (cell\<lparr>isRevealed := True\<rparr>)) = hidden g - {(i, j)}"
proof -
  have ex: "cellAt g i j \<noteq> None" using assms by simp
  show ?thesis
    unfolding hidden_def using cellAt_setCell[OF ex, of "cell\<lparr>isRevealed := True\<rparr>"] by auto
qed

lemma revealCell_returns:
  assumes "wfState s" and "card (hidden (grid s)) < n"
    and "status s = Playing \<longrightarrow> cellAt (grid s) i j \<noteq> None"
  shows "\<exists>s'. revealCell n now i j s = Some (Inr s')"
  using assms
proof (induction n arbitrary: i j s)
  case 0
  then show ?case by simp
next
  case (Suc n)
  show ?case
  proof (cases "status s = Playing")
    case False
    then show ?thesis by (simp add: revealCell_Suc)
  next
    case p: True
    with Suc.prems(3) obtain cell where cell: "cellAt (grid s) i j = Some cell" by auto
    let ?s1 = "s\<lparr>grid := setCell (grid s) i j (cell\<lparr>isRevealed := True\<rparr>)\<rparr>"
    show ?thesis
    proof (cases "\<not> isRevealed cell \<and> \<not> isFlagged cell \<and> \<not> isMine cell \<and> neighborMines cell = 0")
      case False
      then consider "isRevealed cell \<or> isFlagged cell"
        | "\<not> (isRevealed cell \<or> isFlagged cell)" "isMine cell"
        | "\<not> (isRevealed cell \<or> isFlagged cell)" "\<not> isMine cell" "neighborMines cell \<noteq> 0"
        by auto
      then show ?thesis
      proof cases
        case 1
        then show ?thesis using p cell by (simp add: revealCell_Suc)
      next
        case 2
        then show ?thesis using p cell by (simp add: revealCell_Suc)
      next
        case 3
        then show ?thesis using p cell by (simp add: revealCell_Suc)
      qed
    next
      case True
      have fin: "finite (hidden (grid s))"
        using hidden_bound(1) Suc.prems(1) unfolding wfState_def by blast
      have "(i, j) \<in> hidden (grid s)" using cell True by (auto simp: hidden_def)
      then have "card (hidden (grid s) - {(i, j)}) < card (hidden (grid s))"
        using fin by (rule card_Diff1_less[rotated])
      then have "card (hidden (grid ?s1)) < card (hidden (grid s))"
        by (simp add: hidden_setCell[OF cell])
      then have c1: "card (hidden (grid ?s1)) < n" using Suc.prems(2) by simp
      have e1: "evolves s ?s1" using cell by (rule evolves_reveal)
      have "\<exists>s2. forEach (neighbours i j) (visit n now) ?s1 = Some (Inr s2) \<and> evolves ?s1 s2"
      proof (rule forEach_total[where I = "evolves ?s1"])
        show "evolves ?s1 ?s1" by (rule evolves_refl)
      next
        fix x a assume a: "evolves ?s1 a"
        have wa: "wfState a" using evolves_wfState[OF evolves_trans[OF e1 a] Suc.prems(1)] .
        have fa: "finite (hidden (grid ?s1))"
          using hidden_bound(1) evolves_wfState[OF e1 Suc.prems(1)] unfolding wfState_def by blast
        have "card (hidden (grid a)) \<le> card (hidden (grid ?s1))"
          using grew_hidden[of "grid ?s1" "grid a"] a fa by (simp add: evolves_def card_mono)
        then have ca: "card (hidden (grid a)) < n" using c1 by simp
        show "\<exists>b. visit n now x a = Some (Inr b) \<and> evolves ?s1 b"
        proof (cases "0 \<le> fst x \<and> fst x < rows a \<and> 0 \<le> snd x \<and> snd x < cols a")
          case False
          then show ?thesis using a by (auto simp: visit_def)
        next
          case True
          then have "cellAt (grid a) (fst x) (snd x) \<noteq> None" using cellAt_range[OF wa] by simp
          from Suc.IH[OF wa ca, of "fst x" "snd x"] this
          obtain b where b: "revealCell n now (fst x) (snd x) a = Some (Inr b)" by auto
          then have "evolves ?s1 b" using a revealCell_evolves evolves_trans by blast
          then show ?thesis using b True by (simp add: visit_def)
        qed
      qed
      then obtain s2 where "forEach (neighbours i j) (visit n now) ?s1 = Some (Inr s2)" by blast
      then show ?thesis using p cell True by (simp add: revealCell_Suc)
    qed
  qed
qed

section \<open>Reveal and mines\<close>

lemma countsOK_cellAt:
  assumes "countsOK g" and "cellAt g i j = Some x"
  shows "isMine x \<or> neighborMines x = adjacentMines g i j"
proof -
  from cellAt_SomeD[OF assms(2)] have i: "0 \<le> i" "nat i < length g" and j: "0 \<le> j" "nat j < length (g ! nat i)"
    and x: "g ! nat i ! nat j = x" by auto
  obtain k l where k: "i = int k" and l: "j = int l"
    using i(1) j(1) zero_le_imp_eq_int by blast
  have "\<forall>k\<in>{0..<length g}. \<forall>l\<in>{0..<length (g ! k)}.
      isMine (g ! k ! l) \<or> neighborMines (g ! k ! l) = adjacentMines g (int k) (int l)"
    using assms(1) unfolding countsOK_def list_all_iff by simp
  moreover have "k \<in> {0..<length g}" "l \<in> {0..<length (g ! k)}" using i(2) j(2) k l by simp_all
  ultimately have "isMine (g ! k ! l) \<or> neighborMines (g ! k ! l) = adjacentMines g (int k) (int l)"
    by blast
  then show ?thesis using x k l by simp
qed

lemma countsOK_safeZeros:
  assumes "countsOK g"
  shows "safeZeros g"
  unfolding safeZeros_def
proof (intro allI impI)
  fix i j x a b y
  assume x: "cellAt g i j = Some x" "\<not> isMine x" "neighborMines x = 0"
    and n: "(a, b) \<in> set (neighbours i j)" and y: "cellAt g a b = Some y"
  have z: "adjacentMines g i j = 0" using countsOK_cellAt[OF assms x(1)] x(2,3) by simp
  show "\<not> isMine y"
  proof (cases "(a, b) = (i, j)")
    case True
    then show ?thesis using x y by simp
  next
    case False
    from adjacentMines_zero[OF z n False] show ?thesis using y by (simp add: mineAt_def)
  qed
qed

lemma grew_safeZeros:
  assumes "grew g g'" and "safeZeros g"
  shows "safeZeros g'"
  unfolding safeZeros_def
proof (intro allI impI)
  fix i j x' a b y'
  assume x': "cellAt g' i j = Some x'" "\<not> isMine x'" "neighborMines x' = 0"
    and n: "(a, b) \<in> set (neighbours i j)" and y': "cellAt g' a b = Some y'"
  from grew_cellAt[OF assms(1) x'(1)] obtain x where x: "cellAt g i j = Some x"
    "x' = x\<lparr>isRevealed := isRevealed x'\<rparr>" by blast
  from grew_cellAt[OF assms(1) y'] obtain y where y: "cellAt g a b = Some y"
    "y' = y\<lparr>isRevealed := isRevealed y'\<rparr>" by blast
  have "\<not> isMine x" "neighborMines x = 0"
    using x'(2,3) x(2) by (metis Cell.select_convs(3) Cell.surjective Cell.update_convs(4), metis Cell.select_convs(6) Cell.surjective Cell.update_convs(4))
  with assms(2) x(1) n y(1) have "\<not> isMine y" unfolding safeZeros_def by blast
  then show "\<not> isMine y'" using y(2) by (metis Cell.select_convs(3) Cell.surjective Cell.update_convs(4))
qed

lemma grew_back:
  assumes "grew g g'" and "cellAt g' i j = Some x'"
  obtains x where "cellAt g i j = Some x" "isMine x = isMine x'" "isFlagged x = isFlagged x'"
    "neighborMines x = neighborMines x'" "isRevealed x \<longrightarrow> isRevealed x'"
proof -
  from grew_cellAt[OF assms] obtain x where x: "cellAt g i j = Some x"
    "x' = x\<lparr>isRevealed := isRevealed x'\<rparr>" "isRevealed x \<longrightarrow> isRevealed x'" by blast
  have "isMine x' = isMine (x\<lparr>isRevealed := isRevealed x'\<rparr>)"
    "isFlagged x' = isFlagged (x\<lparr>isRevealed := isRevealed x'\<rparr>)"
    "neighborMines x' = neighborMines (x\<lparr>isRevealed := isRevealed x'\<rparr>)"
    using x(2) by simp_all
  then have "isMine x = isMine x'" "isFlagged x = isFlagged x'" "neighborMines x = neighborMines x'"
    by simp_all
  with x(1) show ?thesis using x(3) by (rule that)
qed

lemma grew_forth:
  assumes "grew g g'" and "cellAt g i j = Some x"
  obtains x' where "cellAt g' i j = Some x'" "isMine x' = isMine x" "isFlagged x' = isFlagged x"
    "neighborMines x' = neighborMines x" "isRevealed x \<longrightarrow> isRevealed x'"
proof -
  from assms obtain r where r: "cellAt g' i j = Some (x\<lparr>isRevealed := r\<rparr>)" "isRevealed x \<longrightarrow> r"
    unfolding grew_def by blast
  show ?thesis by (rule that[OF r(1)]) (use r(2) in simp_all)
qed

lemma minesKept_refl: "minesKept g g"
  by (simp add: minesKept_def)

lemma minesKept_trans:
  assumes "grew g g'" and "minesKept g g'" and "minesKept g' g''"
  shows "minesKept g g''"
  unfolding minesKept_def
proof (intro allI impI)
  fix a b x x''
  assume x: "cellAt g a b = Some x" "isMine x" and x'': "cellAt g'' a b = Some x''"
  from grew_forth[OF assms(1) x(1)] obtain x' where x': "cellAt g' a b = Some x'" "isMine x' = isMine x"
    by blast
  then show "isRevealed x'' = isRevealed x"
    using assms(2,3) x x'' unfolding minesKept_def by metis
qed

lemma minesKept_setCell:
  assumes "cellAt g i j = Some cell" and "\<not> isMine cell"
  shows "minesKept g (setCell g i j (cell\<lparr>isRevealed := True\<rparr>))"
  unfolding minesKept_def
proof (intro allI impI)
  fix a b x x'
  assume x: "cellAt g a b = Some x" "isMine x"
    and x': "cellAt (setCell g i j (cell\<lparr>isRevealed := True\<rparr>)) a b = Some x'"
  have ex: "cellAt g i j \<noteq> None" using assms(1) by simp
  have "\<not> (a = i \<and> b = j)" using assms x by auto
  then have "x' = x" using cellAt_setCell[OF ex, of _ a b] x(1) x' by auto
  then show "isRevealed x' = isRevealed x" by simp
qed

lemma visit_cases [consumes 1, case_names skip call]:
  assumes "visit n now p a = Some (Inr b)"
  obtains "\<not> (0 \<le> fst p \<and> fst p < rows a \<and> 0 \<le> snd p \<and> snd p < cols a)" "b = a"
  | "0 \<le> fst p" "fst p < rows a" "0 \<le> snd p" "snd p < cols a"
    "revealCell n now (fst p) (snd p) a = Some (Inr b)"
proof (cases "0 \<le> fst p \<and> fst p < rows a \<and> 0 \<le> snd p \<and> snd p < cols a")
  case True
  then have "visit n now p a = revealCell n now (fst p) (snd p) a"
    unfolding visit_def by (rule if_P)
  then have "revealCell n now (fst p) (snd p) a = Some (Inr b)"
    using assms by simp
  with True show ?thesis using that(2) by blast
next
  case False
  then have "visit n now p a = Some (Inr a)"
    unfolding visit_def by (rule if_not_P)
  then have "b = a" using assms by simp
  with False show ?thesis by (rule that(1))
qed

lemma revealCell_safe:
  assumes "safeZeros (grid s)" and "status s \<noteq> Lost"
    and "\<forall>cell. cellAt (grid s) i j = Some cell \<longrightarrow> \<not> isMine cell"
    and "revealCell n now i j s = Some (Inr s')"
  shows "status s' \<noteq> Lost \<and> minesKept (grid s) (grid s')"
  using assms
proof (induction n arbitrary: i j s s')
  case 0
  then show ?case by simp
next
  case (Suc n)
  from Suc.prems(4) show ?case
  proof (cases rule: revealCell_cases)
    case idle
    then show ?thesis using Suc.prems(2) by (simp add: minesKept_refl)
  next
    case (blocked cell)
    then show ?thesis by (simp add: minesKept_refl)
  next
    case (mine cell)
    then show ?thesis using Suc.prems(3) by simp
  next
    case (number cell)
    then show ?thesis using minesKept_setCell[OF number(2,5)] by (simp add: checkWin_def)
  next
    case (flood cell s2)
    let ?s1 = "s\<lparr>grid := setCell (grid s) i j (cell\<lparr>isRevealed := True\<rparr>)\<rparr>"
    let ?I = "\<lambda>a. evolves s a \<and> status a \<noteq> Lost \<and> minesKept (grid s) (grid a)"
    have "?I s2"
    proof (rule forEach_inv[OF flood(7), where I = ?I])
      show "?I ?s1"
        using evolves_reveal[OF flood(2)] flood(1) minesKept_setCell[OF flood(2,5)] by simp
    next
      fix p a b assume p: "p \<in> set (neighbours i j)" and a: "?I a" and v: "visit n now p a = Some (Inr b)"
      from v show "?I b"
      proof (cases rule: visit_cases)
        case skip
        then show ?thesis using a by simp
      next
        case call
        note r = call(5)
        have ga: "grew (grid s) (grid a)" using a by (simp add: evolves_def)
        have sz: "safeZeros (grid a)" using grew_safeZeros[OF ga Suc.prems(1)] .
        have tgt: "\<forall>y'. cellAt (grid a) (fst p) (snd p) = Some y' \<longrightarrow> \<not> isMine y'"
        proof (intro allI impI)
          fix y' assume "cellAt (grid a) (fst p) (snd p) = Some y'"
          from grew_back[OF ga this] obtain y where y: "cellAt (grid s) (fst p) (snd p) = Some y"
            "isMine y = isMine y'" by blast
          have "(fst p, snd p) \<in> set (neighbours i j)" using p by simp
          with Suc.prems(1) flood(2,5,6) y(1) have "\<not> isMine y" unfolding safeZeros_def by blast
          then show "\<not> isMine y'" using y(2) by simp
        qed
        from Suc.IH[OF sz _ tgt r] a have ih: "status b \<noteq> Lost" "minesKept (grid a) (grid b)" by simp_all
        have "evolves a b" using r by (rule revealCell_evolves)
        then have "evolves s b" using a evolves_trans by blast
        moreover have "minesKept (grid s) (grid b)"
          using minesKept_trans[OF ga _ ih(2)] a by simp
        ultimately show ?thesis using ih(1) by simp
      qed
    qed
    then show ?thesis using flood(8) by (simp add: checkWin_def)
  qed
qed

lemma wonOK_checkWin: "wonOK s \<Longrightarrow> wonOK (checkWin now s)"
  by (simp add: wonOK_def checkWin_def)

lemma revealCell_wonOK:
  "wonOK s \<Longrightarrow> revealCell n now i j s = Some (Inr s') \<Longrightarrow> wonOK s'"
proof (induction n arbitrary: i j s s')
  case 0
  then show ?case by simp
next
  case (Suc n)
  have v: "wonOK b" if "wonOK a" "visit n now p a = Some (Inr b)" for p a b
    using that(2,1) Suc.IH[of a "fst p" "snd p" b] by (cases rule: visit_cases) simp_all
  from Suc.prems(2) show ?case
  proof (cases rule: revealCell_cases)
    case idle
    then show ?thesis using Suc.prems(1) by simp
  next
    case (blocked cell)
    then show ?thesis using Suc.prems(1) by simp
  next
    case (mine cell)
    then show ?thesis by (simp add: wonOK_def)
  next
    case (number cell)
    then show ?thesis by (simp add: wonOK_def checkWin_def)
  next
    case (flood cell s2)
    have "wonOK s2"
    proof (rule forEach_inv[OF flood(7), where I = wonOK])
      show "wonOK (s\<lparr>grid := setCell (grid s) i j (cell\<lparr>isRevealed := True\<rparr>)\<rparr>)"
        using flood(1) by (simp add: wonOK_def)
    qed (use v in blast)
    then show ?thesis using flood(8) wonOK_checkWin by simp
  qed
qed

section \<open>Reveal and flags\<close>

lemma countsOK_iff:
  "countsOK g \<longleftrightarrow> (\<forall>i j x. cellAt g i j = Some x \<longrightarrow> isMine x \<or> neighborMines x = adjacentMines g i j)"
proof
  assume "countsOK g"
  then show "\<forall>i j x. cellAt g i j = Some x \<longrightarrow> isMine x \<or> neighborMines x = adjacentMines g i j"
    using countsOK_cellAt by blast
next
  assume a: "\<forall>i j x. cellAt g i j = Some x \<longrightarrow> isMine x \<or> neighborMines x = adjacentMines g i j"
  have "isMine (g ! k ! l) \<or> neighborMines (g ! k ! l) = adjacentMines g (int k) (int l)"
    if "k < length g" "l < length (g ! k)" for k l
  proof -
    have "cellAt g (int k) (int l) = Some (g ! k ! l)" using that by (simp add: cellAt_def)
    with a show ?thesis by blast
  qed
  then show "countsOK g" unfolding countsOK_def list_all_iff by simp
qed

lemma sameBoard_mineAt:
  assumes "sameBoard g g'"
  shows "mineAt g' a b = mineAt g a b"
proof (cases "cellAt g a b")
  case None
  then have "cellAt g' a b = None" using assms cellAt_shape[of g' g a b] by (simp add: sameBoard_def)
  with None show ?thesis by (simp add: mineAt_def)
next
  case (Some x)
  then have "cellAt g' a b \<noteq> None" using assms cellAt_shape[of g' g a b] by (simp add: sameBoard_def)
  then obtain x' where "cellAt g' a b = Some x'" by auto
  moreover from this Some assms have "isMine x' = isMine x" unfolding sameBoard_def by blast
  ultimately show ?thesis using Some by (simp add: mineAt_def)
qed

lemma sameBoard_countsOK:
  assumes "sameBoard g g'" and "countsOK g"
  shows "countsOK g'"
  unfolding countsOK_iff
proof (intro allI impI)
  fix i j x' assume x': "cellAt g' i j = Some x'"
  then have "cellAt g i j \<noteq> None" using assms(1) cellAt_shape[of g' g i j] by (simp add: sameBoard_def)
  then obtain x where x: "cellAt g i j = Some x" by auto
  have "isMine x' = isMine x \<and> neighborMines x' = neighborMines x"
    using assms(1) x x' unfolding sameBoard_def by blast
  then have f: "isMine x' = isMine x" "neighborMines x' = neighborMines x" by simp_all
  have "(\<lambda>(a, b). (a, b) \<noteq> (i, j) \<and> mineAt g' a b) = (\<lambda>(a, b). (a, b) \<noteq> (i, j) \<and> mineAt g a b)"
    by (simp add: sameBoard_mineAt[OF assms(1)])
  then have "adjacentMines g' i j = adjacentMines g i j" by (simp add: adjacentMines_def)
  then show "isMine x' \<or> neighborMines x' = adjacentMines g' i j"
    using countsOK_cellAt[OF assms(2) x] f by simp
qed

lemma grew_sameBoard: "grew g g' \<Longrightarrow> sameBoard g g'"
  unfolding sameBoard_def
proof (intro conjI allI impI)
  assume g: "grew g g'"
  then show "map length g' = map length g" by (simp add: grew_def)
  fix i j x x' assume x: "cellAt g i j = Some x" and x': "cellAt g' i j = Some x'"
  from grew_back[OF g x'] obtain y where y: "cellAt g i j = Some y" "isMine y = isMine x'"
    "neighborMines y = neighborMines x'" by blast
  then have "y = x" using x by simp
  then show "isMine x' = isMine x" "neighborMines x' = neighborMines x" using y by simp_all
qed

lemma flagsRespected_refl: "flagsRespected g g"
  by (simp add: flagsRespected_def)

lemma flagsRespected_trans:
  assumes "grew g g'" and "flagsRespected g g'" and "flagsRespected g' g''"
  shows "flagsRespected g g''"
  unfolding flagsRespected_def
proof (intro allI impI)
  fix a b x x''
  assume x: "cellAt g a b = Some x" "\<not> isRevealed x" and x'': "cellAt g'' a b = Some x''" "isRevealed x''"
  from grew_forth[OF assms(1) x(1)] obtain x' where x': "cellAt g' a b = Some x'"
    "isMine x' = isMine x" "isFlagged x' = isFlagged x" by blast
  show "\<not> isFlagged x \<or> isMine x"
  proof (cases "isRevealed x'")
    case True
    then show ?thesis using assms(2) x x'(1) unfolding flagsRespected_def by blast
  next
    case False
    then have "\<not> isFlagged x' \<or> isMine x'"
      using assms(3) x'(1) x'' unfolding flagsRespected_def by blast
    then show ?thesis using x'(2,3) by simp
  qed
qed

lemma flagsRespected_setCell:
  assumes "cellAt g i j = Some cell" and "\<not> isFlagged cell"
  shows "flagsRespected g (setCell g i j (cell\<lparr>isRevealed := True\<rparr>))"
  unfolding flagsRespected_def
proof (intro allI impI)
  fix a b x x'
  assume x: "cellAt g a b = Some x" "\<not> isRevealed x"
    and x': "cellAt (setCell g i j (cell\<lparr>isRevealed := True\<rparr>)) a b = Some x'" "isRevealed x'"
  have ex: "cellAt g i j \<noteq> None" using assms(1) by simp
  show "\<not> isFlagged x \<or> isMine x"
  proof (cases "a = i \<and> b = j")
    case True
    then show ?thesis using assms x by simp
  next
    case False
    then have "x' = x" using cellAt_setCell[OF ex, of _ a b] x(1) x'(1) by auto
    then show ?thesis using x(2) x'(2) by simp
  qed
qed

lemma flagsRespected_revealAllMines: "flagsRespected g (revealAllMines g)"
  unfolding flagsRespected_def
proof (intro allI impI)
  fix a b x x'
  assume x: "cellAt g a b = Some x" "\<not> isRevealed x"
    and x': "cellAt (revealAllMines g) a b = Some x'" "isRevealed x'"
  have "x' = (if isMine x then x\<lparr>isRevealed := True\<rparr> else x)"
    using x(1) x'(1) by (simp add: cellAt_revealAllMines)
  then have "isMine x" using x(2) x'(2) by (cases "isMine x") simp_all
  then show "\<not> isFlagged x \<or> isMine x" by simp
qed

lemma revealCell_flags:
  "revealCell n now i j s = Some (Inr s') \<Longrightarrow> flagsRespected (grid s) (grid s')"
proof (induction n arbitrary: i j s s')
  case 0
  then show ?case by simp
next
  case (Suc n)
  from Suc.prems show ?case
  proof (cases rule: revealCell_cases)
    case idle
    then show ?thesis by (simp add: flagsRespected_refl)
  next
    case (blocked cell)
    then show ?thesis by (simp add: flagsRespected_refl)
  next
    case (mine cell)
    then show ?thesis by (simp add: flagsRespected_revealAllMines)
  next
    case (number cell)
    then show ?thesis using flagsRespected_setCell[OF number(2,4)] by (simp add: checkWin_def)
  next
    case (flood cell s2)
    let ?s1 = "s\<lparr>grid := setCell (grid s) i j (cell\<lparr>isRevealed := True\<rparr>)\<rparr>"
    let ?I = "\<lambda>a. evolves s a \<and> flagsRespected (grid s) (grid a)"
    have "?I s2"
    proof (rule forEach_inv[OF flood(7), where I = ?I])
      show "?I ?s1" using evolves_reveal[OF flood(2)] flagsRespected_setCell[OF flood(2,4)] by simp
    next
      fix p a b assume a: "?I a" and v: "visit n now p a = Some (Inr b)"
      from v show "?I b"
      proof (cases rule: visit_cases)
        case skip
        then show ?thesis using a by simp
      next
        case call
        have "evolves a b" using call(5) by (rule revealCell_evolves)
        then have "evolves s b" using a evolves_trans by blast
        moreover have "flagsRespected (grid s) (grid b)"
          using flagsRespected_trans[OF _ _ Suc.IH[OF call(5)]] a by (simp add: evolves_def)
        ultimately show ?thesis by simp
      qed
    qed
    then show ?thesis using flood(8) by (simp add: checkWin_def)
  qed
qed

section \<open>Invariants of a match\<close>

lemma fresh_sound:
  assumes "0 < rws" and "0 < cls" and "0 \<le> mns" and "mns < rws * cls"
    and c: "createNewGame now rws cls mns picks = Some (Inr s)"
  shows "sound s"
proof -
  note f = createNewGame_fields[OF c] and g = createNewGame_grid[OF c assms(3)]
  have counts: "countsOK (grid s)"
    unfolding countsOK_iff
  proof (intro allI impI)
    fix i j x assume "cellAt (grid s) i j = Some x"
    from g(3)[OF this] show "isMine x \<or> neighborMines x = adjacentMines (grid s) i j" by blast
  qed
  have "allCells (grid s) = nat rws * nat cls"
    using allCells_rect[of "grid s" rws cls] g(1) f(2,3) by (simp add: wfState_def)
  moreover have "nat mns < nat rws * nat cls"
  proof -
    have "nat mns < nat (rws * cls)" using assms(3,4) by simp
    then show ?thesis using assms(1) by (simp add: nat_mult_distrib)
  qed
  ultimately have "length (filter isMine (concat (grid s))) < length (concat (grid s))"
    using g(2) by (simp add: allCells_def)
  then have "filter isMine (concat (grid s)) \<noteq> concat (grid s)" by auto
  then obtain x where x: "x \<in> set (concat (grid s))" "\<not> isMine x"
    by (meson filter_id_conv)
  then obtain i j where "cellAt (grid s) i j = Some x" using in_concat_cellAt by blast
  from g(3)[OF this] have "\<not> isRevealed x" by simp
  then have "filter (\<lambda>cell. \<not> isMine cell \<and> \<not> isRevealed cell) (concat (grid s)) \<noteq> []"
    using x by (auto simp: filter_empty_conv)
  then have left: "unrevealedSafeCells (grid s) \<noteq> 0" by (simp add: unrevealedSafeCells_def)
  have "\<not> isRevealed x" if "cellAt (grid s) i j = Some x" for i j x
    using g(3)[OF that] by simp
  then show ?thesis
    unfolding sound_def using g(1) counts left by blast
qed

lemma revealCell_left:
  assumes "revealCell n now i j s = Some (Inr s')" and "status s' = Playing"
    and "status s = Playing \<longrightarrow> unrevealedSafeCells (grid s) \<noteq> 0"
  shows "unrevealedSafeCells (grid s') \<noteq> 0"
proof (cases n)
  case 0
  then show ?thesis using assms(1) by simp
next
  case (Suc m)
  from assms(1)[unfolded Suc] show ?thesis
  proof (cases rule: revealCell_cases)
    case idle
    then show ?thesis using assms(2) by simp
  next
    case (blocked cell)
    then show ?thesis using assms(3) by simp
  next
    case (mine cell)
    then show ?thesis using assms(2) by simp
  next
    case (number cell)
    then show ?thesis using assms(2) by (auto simp: checkWin_def split: if_splits)
  next
    case (flood cell s2)
    then show ?thesis using assms(2) by (auto simp: checkWin_def split: if_splits)
  qed
qed

lemma reveal_sound:
  assumes s: "sound s" and r: "revealCell n now i j s = Some (Inr s')"
  shows "sound s'"
proof -
  note e = revealCell_evolves[OF r]
  then have g: "grew (grid s) (grid s')" by (simp add: evolves_def)
  have wf: "wfState s'" using evolves_wfState[OF e] s by (simp add: sound_def)
  have counts: "countsOK (grid s')"
    using sameBoard_countsOK[OF grew_sameBoard[OF g]] s by (simp add: sound_def)
  have left: "status s' = Playing \<longrightarrow> unrevealedSafeCells (grid s') \<noteq> 0"
    using revealCell_left[OF r] s by (simp add: sound_def)
  have old: "(isMine x \<longrightarrow> status s = Lost) \<and> (isFlagged x \<longrightarrow> isMine x)"
    if "cellAt (grid s) a b = Some x" "isRevealed x" for a b x
    using s that unfolding sound_def by blast
  have cells: "(isMine x' \<longrightarrow> status s' = Lost) \<and> (isFlagged x' \<longrightarrow> isMine x')"
    if x': "cellAt (grid s') a b = Some x'" "isRevealed x'" for a b x'
  proof -
    from grew_back[OF g x'(1)] obtain x where x: "cellAt (grid s) a b = Some x"
      "isMine x = isMine x'" "isFlagged x = isFlagged x'" by blast
    have fl: "isFlagged x' \<longrightarrow> isMine x'"
    proof (cases "isRevealed x")
      case True
      then show ?thesis using old[OF x(1)] x(2,3) by simp
    next
      case False
      then have "\<not> isFlagged x \<or> isMine x"
        using revealCell_flags[OF r] x(1) x' unfolding flagsRespected_def by blast
      then show ?thesis using x(2,3) by simp
    qed
    have mn: "status s' = Lost" if m: "isMine x'"
    proof (cases n)
      case 0
      then show ?thesis using r by simp
    next
      case (Suc k)
      from r[unfolded Suc] show ?thesis
      proof (cases rule: revealCell_cases)
        case idle
        then have "isRevealed x" using x(1) x' by simp
        then show ?thesis using old[OF x(1)] x(2) m idle by simp
      next
        case (blocked cell)
        then have "isRevealed x" using x(1) x' by simp
        then show ?thesis using old[OF x(1)] x(2) m blocked by simp
      next
        case (mine cell)
        then show ?thesis by simp
      next
        case (number cell)
        have "minesKept (grid s) (grid s')"
          using revealCell_safe[OF countsOK_safeZeros _ _ r] s number(1,2,5)
          by (simp add: sound_def)
        then have "isRevealed x" using x(1,2) x' m unfolding minesKept_def by blast
        then show ?thesis using old[OF x(1)] x(2) m number(1) by simp
      next
        case (flood cell s2)
        have "minesKept (grid s) (grid s')"
          using revealCell_safe[OF countsOK_safeZeros _ _ r] s flood(1,2,5)
          by (simp add: sound_def)
        then have "isRevealed x" using x(1,2) x' m unfolding minesKept_def by blast
        then show ?thesis using old[OF x(1)] x(2) m flood(1) by simp
      qed
    qed
    show ?thesis using fl mn by blast
  qed
  show ?thesis unfolding sound_def using wf counts left cells by blast
qed

section \<open>Reachable states\<close>

lemma flagCell_cases [consumes 1, case_names idle revealed toggled]:
  assumes "flagCell i j s = Inr s'"
  obtains "status s \<noteq> Playing" "s' = s"
  | cell where "status s = Playing" "cellAt (grid s) i j = Some cell" "isRevealed cell" "s' = s"
  | cell where "status s = Playing" "cellAt (grid s) i j = Some cell" "\<not> isRevealed cell"
      "s' = s\<lparr>grid := setCell (grid s) i j (cell\<lparr>isFlagged := \<not> isFlagged cell\<rparr>)\<rparr>"
proof (cases "status s = Playing")
  case False
  then have "s' = s" using assms by (simp add: flagCell_def)
  with False show ?thesis by (rule that(1))
next
  case p: True
  then obtain cell where cell: "cellAt (grid s) i j = Some cell"
    using assms by (auto simp: flagCell_def split: option.splits)
  show ?thesis
  proof (cases "isRevealed cell")
    case True
    then have "s' = s" using assms p cell by (simp add: flagCell_def)
    with p cell True show ?thesis by (rule that(2))
  next
    case False
    then have "s' = s\<lparr>grid := setCell (grid s) i j (cell\<lparr>isFlagged := \<not> isFlagged cell\<rparr>)\<rparr>"
      using assms p cell by (simp add: flagCell_def)
    with p cell False show ?thesis by (rule that(3))
  qed
qed

lemma flag_sound:
  assumes s: "sound s" and f: "flagCell i j s = Inr s'"
  shows "sound s'"
  using f
proof (cases rule: flagCell_cases)
  case idle
  then show ?thesis using s by simp
next
  case (revealed cell)
  then show ?thesis using s by simp
next
  case (toggled cell)
  let ?c = "cell\<lparr>isFlagged := \<not> isFlagged cell\<rparr>"
  let ?g = "setCell (grid s) i j ?c"
  have ex: "cellAt (grid s) i j \<noteq> None" using toggled(2) by simp
  have at: "cellAt ?g a b = (if a = i \<and> b = j then Some ?c else cellAt (grid s) a b)" for a b
    using cellAt_setCell[OF ex] by simp
  have same: "isMine x' = isMine x \<and> neighborMines x' = neighborMines x \<and> isRevealed x' = isRevealed x"
    if "cellAt (grid s) a b = Some x" "cellAt ?g a b = Some x'" for a b x x'
    using that toggled(2) at[of a b] by (cases "a = i \<and> b = j") auto
  have wf: "wfState s'"
    using s rectGrid_shape[OF length_setCell, of "grid s" i j ?c] toggled(4)
    by (simp add: sound_def wfState_def)
  have "sameBoard (grid s) ?g"
    unfolding sameBoard_def using same by (auto simp: length_setCell)
  then have counts: "countsOK (grid s')"
    using sameBoard_countsOK s toggled(4) by (simp add: sound_def)
  have "unrevealedSafeCells ?g = unrevealedSafeCells (grid s)"
    unfolding unrevealedSafeCells_def
    by (rule count_cong_cellAt[OF length_setCell]) (use same in auto)
  then have left: "status s' = Playing \<longrightarrow> unrevealedSafeCells (grid s') \<noteq> 0"
    using s toggled(4) by (simp add: sound_def)
  have cells: "(isMine x' \<longrightarrow> status s' = Lost) \<and> (isFlagged x' \<longrightarrow> isMine x')"
    if x': "cellAt (grid s') a b = Some x'" "isRevealed x'" for a b x'
  proof (cases "a = i \<and> b = j")
    case True
    then have "x' = ?c" using x'(1) toggled(4) at[of a b] by simp
    then show ?thesis using x'(2) toggled(3) by simp
  next
    case False
    then have "cellAt (grid s) a b = Some x'" using x'(1) toggled(4) at[of a b] by auto
    then show ?thesis using s x'(2) toggled(4) unfolding sound_def by auto
  qed
  show ?thesis unfolding sound_def using wf counts left cells by blast
qed

lemma timeout_sound:
  assumes s: "sound s"
  shows "sound (fst (checkTimeout now s))"
proof (cases "fst (checkTimeout now s) = s")
  case True
  then show ?thesis using s by simp
next
  case False
  let ?t = "s\<lparr>status := Lost, endTime := Some now, grid := revealAllMines (grid s)\<rparr>"
  have t: "fst (checkTimeout now s) = ?t"
    using False by (auto simp: checkTimeout_def Let_def split: option.splits if_splits)
  have e: "evolves s ?t" by (rule evolves_lost)
  then have g: "grew (grid s) (grid ?t)" by (simp add: evolves_def)
  have wf: "wfState ?t" using evolves_wfState[OF e] s by (simp add: sound_def)
  have counts: "countsOK (grid ?t)"
    using sameBoard_countsOK[OF grew_sameBoard[OF g]] s by (simp add: sound_def)
  have cells: "(isMine x' \<longrightarrow> status ?t = Lost) \<and> (isFlagged x' \<longrightarrow> isMine x')"
    if x': "cellAt (grid ?t) a b = Some x'" "isRevealed x'" for a b x'
  proof -
    from x'(1) obtain x where x: "cellAt (grid s) a b = Some x"
      "x' = (if isMine x then x\<lparr>isRevealed := True\<rparr> else x)"
      by (auto simp: cellAt_revealAllMines)
    show ?thesis
    proof (cases "isMine x")
      case True
      then show ?thesis using x(2) by simp
    next
      case False
      then have "x' = x" using x(2) by simp
      then show ?thesis using s x(1) x'(2) False unfolding sound_def by auto
    qed
  qed
  show ?thesis unfolding t sound_def using wf counts cells by auto
qed

lemma reachable_sound: "reachable s \<Longrightarrow> sound s"
proof (induction rule: reachable.induct)
  case (fresh rws cls mns now picks s)
  then show ?case by (rule fresh_sound)
next
  case (step s depth now a s')
  show ?case
  proof (cases a)
    case (Reveal i j)
    then show ?thesis using step reveal_sound by simp
  next
    case (Flag i j)
    then show ?thesis using step flag_sound by simp
  next
    case CheckTimeout
    then show ?thesis using step timeout_sound[of s now] by auto
  qed
qed

section \<open>Winning, and mines during play\<close>

lemma oneMine_reveal: "revealCell 4 2000 0 2 oneMine = Some (Inr oneMineWon)"
  unfolding oneMine_def oneMineWon_def by code_simp

lemma twoMines_reveal: "revealCell 4 2000 0 2 twoMines = Some (Inr twoMinesWon)"
  unfolding twoMines_def twoMinesWon_def by code_simp

lemma revealCell_win:
  assumes r: "revealCell n now i j s = Some (Inr s')" and "status s = Playing"
    and "cellAt (grid s) i j = Some cell" and "\<not> isMine cell"
    and "\<not> isRevealed cell" and "\<not> isFlagged cell"
  shows "(status s' = Won \<longleftrightarrow> unrevealedSafeCells (grid s') = 0) \<and>
         (status s' = Won \<longrightarrow> endTime s' = Some now)"
proof (cases n)
  case 0
  then show ?thesis using r by simp
next
  case (Suc m)
  have fin: "(status (checkWin now a) = Won \<longleftrightarrow> unrevealedSafeCells (grid (checkWin now a)) = 0) \<and>
         (status (checkWin now a) = Won \<longrightarrow> endTime (checkWin now a) = Some now)" if "wonOK a" for a
    using that by (auto simp: checkWin_def wonOK_def)
  from r[unfolded Suc] show ?thesis
  proof (cases rule: revealCell_cases)
    case idle
    then show ?thesis using assms(2) by simp
  next
    case (blocked c)
    then show ?thesis using assms(3,5,6) by simp
  next
    case (mine c)
    then show ?thesis using assms(3,4) by simp
  next
    case (number c)
    have "wonOK (s\<lparr>grid := setCell (grid s) i j (c\<lparr>isRevealed := True\<rparr>)\<rparr>)"
      using number(1) by (simp add: wonOK_def)
    from fin[OF this] number(7) show ?thesis by simp
  next
    case (flood c s2)
    have "wonOK s2"
    proof (rule forEach_inv[OF flood(7), where I = wonOK])
      show "wonOK (s\<lparr>grid := setCell (grid s) i j (c\<lparr>isRevealed := True\<rparr>)\<rparr>)"
        using flood(1) by (simp add: wonOK_def)
    next
      fix p a b assume a: "wonOK a" and v: "visit m now p a = Some (Inr b)"
      from v a show "wonOK b"
        using revealCell_wonOK by (cases rule: visit_cases) auto
    qed
    from fin[OF this] flood(8) show ?thesis by simp
  qed
qed

lemma revealCell_blocked:
  assumes "revealCell n now i j s = Some (Inr s')" and "status s = Playing"
    and "cellAt (grid s) i j = Some cell" and "isRevealed cell \<or> isFlagged cell"
  shows "s' = s"
proof (cases n)
  case 0
  then show ?thesis using assms(1) by simp
next
  case (Suc m)
  then show ?thesis using assms by (simp add: revealCell_Suc)
qed

lemma single_cell_game:
  "\<exists>s0 s1. createNewGame t 1 1 0 [] = Some (Inr s0) \<and>
     revealCell 2 now 0 0 s0 = Some (Inr s1) \<and> status s1 = Won \<and> endTime s1 = Some now"
proof -
  let ?c = "\<lparr>cellR = 0, cellC = 0, isMine = False, isRevealed = False,
       isFlagged = False, neighborMines = 0\<rparr>"
  let ?s0 = "\<lparr>grid = [[?c]], rows = 1, cols = 1, mines = 0, status = Playing,
     startTime = Some t, endTime = None, timeLimit = 120\<rparr>"
  let ?d = "\<lparr>cellR = 0, cellC = 0, isMine = False, isRevealed = True,
       isFlagged = False, neighborMines = 0\<rparr>"
  let ?s1 = "\<lparr>grid = [[?d]], rows = 1, cols = 1, mines = 0, status = Playing,
     startTime = Some t, endTime = None, timeLimit = 120\<rparr>"
  let ?s2 = "\<lparr>grid = [[?d]], rows = 1, cols = 1, mines = 0, status = Won,
     startTime = Some t, endTime = Some now, timeLimit = 120\<rparr>"
  have g: "createNewGame t 1 1 0 [] = Some (Inr ?s0)"
    by (simp add: createNewGame_def emptyGrid_def newCell_def calcNeighbors_def calcCell_def
        countMines_def neighbours_def offsets_def setCell_def timeLimitFor_def)
  have c: "cellAt [[?c]] 0 0 = Some ?c" by (simp add: cellAt_def)
  have inner: "visit (Suc 0) now p ?s1 = Some (Inr ?s1)" for p
  proof (cases "p = (0, 0)")
    case True
    have "revealCell (Suc 0) now 0 0 ?s1 = Some (Inr ?s1)"
      by (simp add: revealCell_Suc cellAt_def)
    then show ?thesis using True by (simp add: visit_def)
  next
    case False
    then have "\<not> (0 \<le> fst p \<and> fst p < rows ?s1 \<and> 0 \<le> snd p \<and> snd p < cols ?s1)"
      by (cases p) auto
    then show ?thesis unfolding visit_def by (rule if_not_P)
  qed
  have loop: "forEach (neighbours 0 0) (visit (Suc 0) now) ?s1 = Some (Inr ?s1)"
    by (simp add: neighbours_list inner)
  have "revealCell (Suc (Suc 0)) now 0 0 ?s0 = Some (Inr (checkWin now ?s1))"
    using loop by (simp add: revealCell_Suc c setCell_def)
  moreover have "checkWin now ?s1 = ?s2"
    by (simp add: checkWin_def unrevealedSafeCells_def)
  moreover have "Suc (Suc 0) = 2" by simp
  ultimately have "revealCell 2 now 0 0 ?s0 = Some (Inr ?s2)"
    by (simp only:)
  with g show ?thesis by auto
qed

text \<open>
  Claim C1. In a match in status \<open>playing\<close>, a reveal of a cell that is not a mine returns
  a state whose status is \<open>won\<close> (with \<open>endTime\<close> set) if and only if no cell is left that
  is neither a mine nor revealed. This holds for every reveal that uncovers its target,
  and for every reveal in a state a match can reach. With a call depth above the number
  of cells the reveal returns. On the 1 by 1 board without mines, \<open>reveal(0,0)\<close> wins.
\<close>

theorem win_detection:
  "(status s = Playing \<and> cellAt (grid s) i j = Some cell \<and> \<not> isMine cell \<and>
      ((\<not> isRevealed cell \<and> \<not> isFlagged cell) \<or> reachable s) \<and>
      revealCell depth now i j s = Some (Inr s') \<longrightarrow>
        (status s' = Won \<longleftrightarrow> unrevealedSafeCells (grid s') = 0) \<and>
        (status s' = Won \<longrightarrow> endTime s' = Some now)) \<and>
   (wfState s \<and> allCells (grid s) < depth \<and> cellAt (grid s) i j \<noteq> None \<longrightarrow>
      (\<exists>s'. revealCell depth now i j s = Some (Inr s'))) \<and>
   (\<exists>s0 s1. createNewGame t 1 1 0 [] = Some (Inr s0) \<and>
      revealCell 2 now 0 0 s0 = Some (Inr s1) \<and> status s1 = Won \<and> endTime s1 = Some now)"
proof (intro conjI impI)
  assume a: "status s = Playing \<and> cellAt (grid s) i j = Some cell \<and> \<not> isMine cell \<and>
      ((\<not> isRevealed cell \<and> \<not> isFlagged cell) \<or> reachable s) \<and>
      revealCell depth now i j s = Some (Inr s')"
  show "status s' = Won \<longleftrightarrow> unrevealedSafeCells (grid s') = 0"
    and "status s' = Won \<Longrightarrow> endTime s' = Some now"
  proof -
    have "(status s' = Won \<longleftrightarrow> unrevealedSafeCells (grid s') = 0) \<and>
         (status s' = Won \<longrightarrow> endTime s' = Some now)"
    proof (cases "\<not> isRevealed cell \<and> \<not> isFlagged cell")
      case True
      then show ?thesis using revealCell_win[of depth now i j s s' cell] a by blast
    next
      case False
      then have "s' = s" using revealCell_blocked[of depth now i j s s' cell] a by blast
      moreover have "sound s" using a False reachable_sound by blast
      ultimately show ?thesis using a by (simp add: sound_def)
    qed
    then show "status s' = Won \<longleftrightarrow> unrevealedSafeCells (grid s') = 0"
      and "status s' = Won \<Longrightarrow> endTime s' = Some now" by blast+
  qed
next
  assume a: "wfState s \<and> allCells (grid s) < depth \<and> cellAt (grid s) i j \<noteq> None"
  then have "card (hidden (grid s)) < depth"
    using hidden_bound(2)[of "grid s" "rows s" "cols s"] by (simp add: wfState_def)
  then show "\<exists>s'. revealCell depth now i j s = Some (Inr s')"
    using revealCell_returns a by blast
next
  show "\<exists>s0 s1. createNewGame t 1 1 0 [] = Some (Inr s0) \<and>
      revealCell 2 now 0 0 s0 = Some (Inr s1) \<and> status s1 = Won \<and> endTime s1 = Some now"
    by (rule single_cell_game)
qed

theorem win_detection_witness:
  "status twoMines = Playing \<and> cellAt (grid twoMines) 0 2 \<noteq> None \<and> wfState twoMines \<and>
   allCells (grid twoMines) < 4 \<and>
   revealCell 4 2000 0 2 twoMines = Some (Inr twoMinesWon) \<and> status twoMinesWon = Won \<and>
   unrevealedSafeCells (grid twoMinesWon) = 0 \<and> endTime twoMinesWon = Some 2000"
proof -
  let ?c = "\<lparr>cellR = 0, cellC = 2, isMine = False, isRevealed = False,
       isFlagged = False, neighborMines = 1\<rparr>"
  have h: "status twoMines = Playing" "cellAt (grid twoMines) 0 2 = Some ?c"
    "wfState twoMines" "allCells (grid twoMines) < 4"
    by (simp_all add: twoMines_def cellAt_def wfState_def rectGrid_def allCells_def)
  have z: "unrevealedSafeCells (grid twoMinesWon) = 0"
    by (simp add: twoMinesWon_def unrevealedSafeCells_def)
  from win_detection[of twoMines 0 2 ?c 4 2000 twoMinesWon] h(1,2) twoMines_reveal z
  have "status twoMinesWon = Won \<and> endTime twoMinesWon = Some 2000" by simp
  then show ?thesis using h twoMines_reveal z by simp
qed

text \<open>
  Claim C10. In every state a match can reach with status \<open>playing\<close>, no mine is
  revealed. With correct counts, a reveal of a cell that is not a mine never sets the
  status to \<open>lost\<close> and leaves every mine as it was, because a cell that is not a mine and
  has \<open>neighborMines = 0\<close> has no mine next to it. With a call depth above the number of
  cells the reveal returns.
\<close>

theorem mines_stay_hidden:
  "(reachable s \<and> status s = Playing \<longrightarrow>
      (\<forall>a b x. cellAt (grid s) a b = Some x \<longrightarrow> isMine x \<longrightarrow> \<not> isRevealed x)) \<and>
   (countsOK (grid s) \<and> status s = Playing \<and> cellAt (grid s) i j = Some cell \<and> \<not> isMine cell \<and>
      revealCell depth now i j s = Some (Inr s') \<longrightarrow>
        status s' \<noteq> Lost \<and>
        (\<forall>a b x x'. cellAt (grid s) a b = Some x \<longrightarrow> cellAt (grid s') a b = Some x' \<longrightarrow>
           isMine x \<longrightarrow> isRevealed x' = isRevealed x)) \<and>
   (countsOK (grid s) \<and> cellAt (grid s) i j = Some cell \<and> \<not> isMine cell \<and>
      neighborMines cell = 0 \<longrightarrow>
        (\<forall>p\<in>set (neighbours i j). \<not> mineAt (grid s) (fst p) (snd p))) \<and>
   (wfState s \<and> allCells (grid s) < depth \<and> cellAt (grid s) i j \<noteq> None \<longrightarrow>
      (\<exists>s'. revealCell depth now i j s = Some (Inr s')))"
proof (intro conjI impI allI ballI)
  fix a b x
  assume "reachable s \<and> status s = Playing" and "cellAt (grid s) a b = Some x" and "isMine x"
  then show "\<not> isRevealed x" using reachable_sound[of s] unfolding sound_def by auto
next
  assume a: "countsOK (grid s) \<and> status s = Playing \<and> cellAt (grid s) i j = Some cell \<and>
      \<not> isMine cell \<and> revealCell depth now i j s = Some (Inr s')"
  then have k: "status s' \<noteq> Lost \<and> minesKept (grid s) (grid s')"
    using revealCell_safe[of s i j depth now s'] countsOK_safeZeros by auto
  then show "status s' \<noteq> Lost" by simp
  fix a b x x'
  assume "cellAt (grid s) a b = Some x" "cellAt (grid s') a b = Some x'" "isMine x"
  then show "isRevealed x' = isRevealed x" using k unfolding minesKept_def by blast
next
  fix p
  assume a: "countsOK (grid s) \<and> cellAt (grid s) i j = Some cell \<and> \<not> isMine cell \<and>
      neighborMines cell = 0" and p: "p \<in> set (neighbours i j)"
  then have sz: "safeZeros (grid s)" using countsOK_safeZeros by blast
  show "\<not> mineAt (grid s) (fst p) (snd p)"
  proof (cases "cellAt (grid s) (fst p) (snd p)")
    case None
    then show ?thesis by (simp add: mineAt_def)
  next
    case (Some y)
    have "(fst p, snd p) \<in> set (neighbours i j)" using p by simp
    with sz a Some have "\<not> isMine y" unfolding safeZeros_def by blast
    then show ?thesis using Some by (simp add: mineAt_def)
  qed
next
  assume a: "wfState s \<and> allCells (grid s) < depth \<and> cellAt (grid s) i j \<noteq> None"
  then have "card (hidden (grid s)) < depth"
    using hidden_bound(2)[of "grid s" "rows s" "cols s"] by (simp add: wfState_def)
  then show "\<exists>s'. revealCell depth now i j s = Some (Inr s')"
    using revealCell_returns a by blast
qed

theorem mines_stay_hidden_witness:
  "reachable freshExample \<and> status freshExample = Playing \<and>
   \<not> isRevealed (grid freshExample ! 0 ! 0) \<and>
   countsOK (grid oneMine) \<and> status oneMine = Playing \<and> wfState oneMine \<and>
   allCells (grid oneMine) < 4 \<and> \<not> mineAt (grid oneMine) 0 1 \<and>
   revealCell 4 2000 0 2 oneMine = Some (Inr oneMineWon) \<and> status oneMineWon \<noteq> Lost \<and>
   \<not> isRevealed (grid oneMineWon ! 0 ! 0)"
proof -
  let ?m = "\<lparr>cellR = 0, cellC = 0, isMine = True, isRevealed = False,
       isFlagged = False, neighborMines = 0\<rparr>"
  let ?c = "\<lparr>cellR = 0, cellC = 2, isMine = False, isRevealed = False,
       isFlagged = False, neighborMines = 0\<rparr>"
  have re: "reachable freshExample"
    by (rule reachable.fresh[OF _ _ _ _ freshExample_generated]) simp_all
  have f: "status freshExample = Playing" "cellAt (grid freshExample) 0 0 = Some ?m"
    "grid freshExample ! 0 ! 0 = ?m"
    by (simp_all add: freshExample_def cellAt_def)
  have h: "countsOK (grid oneMine)" "wfState oneMine"
    unfolding oneMine_def by code_simp+
  have h2: "status oneMine = Playing" "cellAt (grid oneMine) 0 2 = Some ?c"
    "cellAt (grid oneMine) 0 0 = Some ?m" "allCells (grid oneMine) < 4"
    by (simp_all add: oneMine_def cellAt_def allCells_def)
  have w: "cellAt (grid oneMineWon) 0 0 = Some (grid oneMineWon ! 0 ! 0)"
    by (simp add: oneMineWon_def cellAt_def)
  have n: "(0, 1) \<in> set (neighbours 0 2)" by (simp add: neighbours_list)
  note t1 = mines_stay_hidden[of freshExample 0 0 ?m 4 2000 freshExample]
  note t2 = mines_stay_hidden[of oneMine 0 2 ?c 4 2000 oneMineWon]
  from t1 re f(1) have "\<forall>a b x. cellAt (grid freshExample) a b = Some x \<longrightarrow> isMine x \<longrightarrow> \<not> isRevealed x"
    by blast
  then have a1: "\<not> isRevealed (grid freshExample ! 0 ! 0)" using f(2,3) by simp
  from t2 h(1) h2(1,2) oneMine_reveal
  have k: "status oneMineWon \<noteq> Lost \<and>
        (\<forall>a b x x'. cellAt (grid oneMine) a b = Some x \<longrightarrow> cellAt (grid oneMineWon) a b = Some x' \<longrightarrow>
           isMine x \<longrightarrow> isRevealed x' = isRevealed x)"
    by simp
  then have "isRevealed (grid oneMineWon ! 0 ! 0) = isRevealed ?m" using h2(3) w by simp
  then have a3: "\<not> isRevealed (grid oneMineWon ! 0 ! 0)" by simp
  from t2 h(1) h2(2) have "\<forall>p\<in>set (neighbours 0 2). \<not> mineAt (grid oneMine) (fst p) (snd p)"
    by simp
  then have a4: "\<not> mineAt (grid oneMine) 0 1" using n by fastforce
  show ?thesis using re f(1) a1 h h2(1,4) a4 oneMine_reveal k a3 by simp
qed

section \<open>The recursion completes every cell without adjacent mines\<close>

lemma doneAt_grew: "grew g g' \<Longrightarrow> doneAt g a b \<Longrightarrow> doneAt g' a b"
  unfolding doneAt_def
proof (intro allI impI)
  fix y' assume g: "grew g g'" and d: "\<forall>y. cellAt g a b = Some y \<longrightarrow> isRevealed y \<or> isFlagged y"
    and y': "cellAt g' a b = Some y'"
  from grew_back[OF g y'] obtain y where y: "cellAt g a b = Some y" "isFlagged y = isFlagged y'"
    "isRevealed y \<longrightarrow> isRevealed y'" by blast
  with d show "isRevealed y' \<or> isFlagged y'" by auto
qed

lemma closed_refl: "closed g g"
  unfolding closed_def by auto

lemma closed_trans:
  assumes g1: "grew g g'" and g2: "grew g' g''" and c1: "closed g g'" and c2: "closed g' g''"
  shows "closed g g''"
  unfolding closed_def
proof (intro allI impI ballI)
  fix a b x x'' p
  assume x: "cellAt g a b = Some x" "\<not> isRevealed x" "neighborMines x = 0"
    and x'': "cellAt g'' a b = Some x''" "isRevealed x''"
    and p: "p \<in> set (neighbours a b)"
  from grew_forth[OF g1 x(1)] obtain x' where x': "cellAt g' a b = Some x'"
    "neighborMines x' = neighborMines x" by blast
  show "doneAt g'' (fst p) (snd p)"
  proof (cases "isRevealed x'")
    case True
    then have "doneAt g' (fst p) (snd p)"
      using c1 x x'(1) p unfolding closed_def by blast
    then show ?thesis using doneAt_grew[OF g2] by blast
  next
    case False
    then show ?thesis using c2 x'(1) x'(2) x(3) x'' p unfolding closed_def by auto
  qed
qed

lemma okStatus_checkWin: "okStatus s \<Longrightarrow> okStatus (checkWin now s)"
  by (auto simp: okStatus_def checkWin_def)

lemma revealCell_closed:
  assumes "wfState s" and "safeZeros (grid s)" and "okStatus s"
    and "cellAt (grid s) i j = Some cell" and "\<not> isMine cell"
    and "revealCell n now i j s = Some (Inr s')"
  shows "okStatus s' \<and> doneAt (grid s') i j \<and> closed (grid s) (grid s')"
  using assms
proof (induction n arbitrary: i j s s' cell)
  case 0
  then show ?case by simp
next
  case (Suc n)
  note wf = Suc.prems(1) and sz = Suc.prems(2) and ok = Suc.prems(3)
    and cell = Suc.prems(4) and nm = Suc.prems(5)
  from Suc.prems(6) show ?case
  proof (cases rule: revealCell_cases)
    case idle
    then have "unrevealedSafeCells (grid s) = 0" using ok by (simp add: okStatus_def)
    then have "isRevealed cell" using cell nm unfolding unrevealedSafeCells_zero by blast
    then have "doneAt (grid s) i j" using cell by (simp add: doneAt_def)
    then show ?thesis using idle ok by (simp add: closed_refl)
  next
    case (blocked c)
    then have "doneAt (grid s) i j" by (simp add: doneAt_def)
    then show ?thesis using blocked ok by (simp add: closed_refl)
  next
    case (mine c)
    then show ?thesis using cell nm by simp
  next
    case (number c)
    let ?s1 = "s\<lparr>grid := setCell (grid s) i j (c\<lparr>isRevealed := True\<rparr>)\<rparr>"
    have ex: "cellAt (grid s) i j \<noteq> None" using cell by simp
    have at: "cellAt (grid ?s1) a b = (if a = i \<and> b = j then Some (c\<lparr>isRevealed := True\<rparr>) else cellAt (grid s) a b)" for a b
      using cellAt_setCell[OF ex] by simp
    have 1: "okStatus (checkWin now ?s1)"
      by (rule okStatus_checkWin) (simp add: okStatus_def number(1))
    have 2: "doneAt (grid ?s1) i j" using at[of i j] by (simp add: doneAt_def)
    have 3: "closed (grid s) (grid ?s1)"
      unfolding closed_def
    proof (intro allI impI ballI)
      fix a b x x' p
      assume "cellAt (grid s) a b = Some x" "\<not> isRevealed x" "cellAt (grid ?s1) a b = Some x'"
        "isRevealed x'" "neighborMines x = 0"
      then have False using at[of a b] number(2,6) by (cases "a = i \<and> b = j") auto
      then show "doneAt (grid ?s1) (fst p) (snd p)" ..
    qed
    show ?thesis using 1 2 3 number(7) by (simp add: checkWin_def)
  next
    case (flood c s2)
    let ?s1 = "s\<lparr>grid := setCell (grid s) i j (c\<lparr>isRevealed := True\<rparr>)\<rparr>"
    have ex: "cellAt (grid s) i j \<noteq> None" using cell by simp
    have at: "cellAt (grid ?s1) a b = (if a = i \<and> b = j then Some (c\<lparr>isRevealed := True\<rparr>) else cellAt (grid s) a b)" for a b
      using cellAt_setCell[OF ex] by simp
    have e1: "evolves s ?s1" using flood(2) by (rule evolves_reveal)
    let ?I = "\<lambda>a. evolves ?s1 a \<and> okStatus a \<and> closed (grid ?s1) (grid a)"
    let ?Q = "\<lambda>p a. doneAt (grid a) (fst p) (snd p)"
    have post: "?I s2 \<and> (\<forall>p\<in>set (neighbours i j). ?Q p s2)"
    proof (rule forEach_post[OF flood(7), where I = ?I and Q = ?Q])
      show "?I ?s1" using flood(1) by (simp add: evolves_refl okStatus_def closed_refl)
    next
      fix p a b assume p: "p \<in> set (neighbours i j)" and a: "?I a" and v: "visit n now p a = Some (Inr b)"
      have ea: "evolves s a" using e1 a evolves_trans by blast
      then have ga: "grew (grid s) (grid a)" by (simp add: evolves_def)
      have wa: "wfState a" using evolves_wfState[OF ea wf] .
      from v show "?I b \<and> ?Q p b"
      proof (cases rule: visit_cases)
        case skip
        then have "cellAt (grid a) (fst p) (snd p) = None" using cellAt_range[OF wa, of "fst p" "snd p"] by auto
        then show ?thesis using skip a by (simp add: doneAt_def)
      next
        case call
        then have "cellAt (grid a) (fst p) (snd p) \<noteq> None" using cellAt_range[OF wa, of "fst p" "snd p"] by simp
        then obtain y' where y': "cellAt (grid a) (fst p) (snd p) = Some y'" by auto
        from grew_back[OF ga y'] obtain y where y: "cellAt (grid s) (fst p) (snd p) = Some y"
          "isMine y = isMine y'" by blast
        have "(fst p, snd p) \<in> set (neighbours i j)" using p by simp
        with sz flood(2,5,6) y(1) have "\<not> isMine y" unfolding safeZeros_def by blast
        then have nm': "\<not> isMine y'" using y(2) by simp
        have sza: "safeZeros (grid a)" using grew_safeZeros[OF ga sz] .
        from Suc.IH[OF wa sza _ y' nm' call(5)] a
        have ih: "okStatus b" "doneAt (grid b) (fst p) (snd p)" "closed (grid a) (grid b)" by simp_all
        have eb: "evolves a b" using call(5) by (rule revealCell_evolves)
        have "closed (grid ?s1) (grid b)"
          using closed_trans[OF _ _ _ ih(3)] a eb by (simp add: evolves_def)
        moreover have "evolves ?s1 b" using a eb evolves_trans by blast
        ultimately show ?thesis using ih(1,2) by simp
      qed
    next
      fix x y a b assume q: "?Q x a" and a: "?I a" and v: "visit n now y a = Some (Inr b)"
      from v have "evolves a b"
        using revealCell_evolves evolves_refl by (cases rule: visit_cases) auto
      then have "grew (grid a) (grid b)" by (simp add: evolves_def)
      from doneAt_grew[OF this q] show "?Q x b" .
    qed
    then have I2: "evolves ?s1 s2" "okStatus s2" "closed (grid ?s1) (grid s2)"
      and Q2: "\<And>p. p \<in> set (neighbours i j) \<Longrightarrow> doneAt (grid s2) (fst p) (snd p)" by simp_all
    have g12: "grew (grid ?s1) (grid s2)" using I2(1) by (simp add: evolves_def)
    have 1: "okStatus s'" using flood(8) okStatus_checkWin[OF I2(2)] by simp
    have "doneAt (grid ?s1) i j" using at[of i j] by (simp add: doneAt_def)
    then have 2: "doneAt (grid s2) i j" using doneAt_grew[OF g12] by blast
    have 3: "closed (grid s) (grid s2)"
      unfolding closed_def
    proof (intro allI impI ballI)
      fix a b x x' p
      assume x: "cellAt (grid s) a b = Some x" "\<not> isRevealed x" "neighborMines x = 0"
        and x': "cellAt (grid s2) a b = Some x'" "isRevealed x'" and p: "p \<in> set (neighbours a b)"
      show "doneAt (grid s2) (fst p) (snd p)"
      proof (cases "a = i \<and> b = j")
        case True
        then show ?thesis using Q2 p by simp
      next
        case False
        then have "cellAt (grid ?s1) a b = Some x" using at[of a b] x(1) by auto
        then show ?thesis using I2(3) x(2,3) x' p unfolding closed_def by blast
      qed
    qed
    show ?thesis using 1 2 3 flood(8) by (simp add: checkWin_def)
  qed
qed

section \<open>The recursion stays inside the region\<close>

lemma floodRegion_open:
  assumes "(u, v) \<in> floodRegion g i j"
  shows "\<exists>x. cellAt g u v = Some x \<and> \<not> isRevealed x \<and> \<not> isFlagged x"
  using assms by (induction rule: floodRegion.induct) auto

lemma floodRegion_safe:
  assumes "(u, v) \<in> floodRegion g i j" and "safeZeros g"
    and "\<forall>c. cellAt g i j = Some c \<longrightarrow> \<not> isMine c"
  shows "\<forall>x. cellAt g u v = Some x \<longrightarrow> \<not> isMine x"
  using assms(1)
proof (induction rule: floodRegion.induct)
  case (start x)
  then show ?case using assms(3) by simp
next
  case (spread a b x a' b' y)
  from assms(2) spread(2,3,4,5,6) have "\<not> isMine y" unfolding safeZeros_def by blast
  then show ?case using spread(6) by simp
qed

lemma floodRegion_mono:
  assumes g: "grew g ga" and c: "cellAt g i j = Some cell" "\<not> isRevealed cell" "\<not> isFlagged cell"
    "\<not> isMine cell" "neighborMines cell = 0"
    and n: "(a, b) \<in> set (neighbours i j)" and q: "(k, l) \<in> floodRegion ga a b"
  shows "(k, l) \<in> floodRegion g i j"
  using q
proof (induction rule: floodRegion.induct)
  case (start x')
  from grew_back[OF g start(1)] obtain x where x: "cellAt g a b = Some x"
    "isFlagged x = isFlagged x'" "isRevealed x \<longrightarrow> isRevealed x'" by blast
  have "(i, j) \<in> floodRegion g i j" using c(1,2,3) by (rule floodRegion.start)
  from floodRegion.spread[OF this c(1) c(4) c(5) n x(1)] x(2,3) start(2,3)
  show ?case by simp
next
  case (spread u v x' u' v' y')
  from grew_back[OF g spread(2)] obtain x where x: "cellAt g u v = Some x"
    "isMine x = isMine x'" "neighborMines x = neighborMines x'" by blast
  from grew_back[OF g spread(6)] obtain y where y: "cellAt g u' v' = Some y"
    "isFlagged y = isFlagged y'" "isRevealed y \<longrightarrow> isRevealed y'" by blast
  from floodRegion.spread[OF spread.IH x(1) _ _ spread(5) y(1)] x(2,3) y(2,3) spread(3,4,7,8)
  show ?case by simp
qed

lemma within_refl: "within g g R"
  unfolding within_def by auto

lemma within_trans:
  assumes g1: "grew g g'" and w1: "within g g' R" and w2: "within g' g'' R"
  shows "within g g'' R"
  unfolding within_def
proof (intro allI impI)
  fix a b x x''
  assume x: "cellAt g a b = Some x" "\<not> isRevealed x" and x'': "cellAt g'' a b = Some x''" "isRevealed x''"
  from grew_forth[OF g1 x(1)] obtain x' where x': "cellAt g' a b = Some x'" by blast
  show "(a, b) \<in> R"
  proof (cases "isRevealed x'")
    case True
    then show ?thesis using w1 x x' unfolding within_def by blast
  next
    case False
    then show ?thesis using w2 x' x'' unfolding within_def by blast
  qed
qed

lemma revealCell_within:
  assumes "safeZeros (grid s)" and "\<forall>c. cellAt (grid s) i j = Some c \<longrightarrow> \<not> isMine c"
    and "revealCell n now i j s = Some (Inr s')"
  shows "within (grid s) (grid s') (floodRegion (grid s) i j)"
  using assms
proof (induction n arbitrary: i j s s')
  case 0
  then show ?case by simp
next
  case (Suc n)
  note sz = Suc.prems(1) and nm = Suc.prems(2)
  let ?R = "floodRegion (grid s) i j"
  have only: "within (grid s) (setCell (grid s) i j (c\<lparr>isRevealed := True\<rparr>)) ?R"
    if c: "cellAt (grid s) i j = Some c" "\<not> isRevealed c" "\<not> isFlagged c" for c
    unfolding within_def
  proof (intro allI impI)
    fix a b x x'
    assume x: "cellAt (grid s) a b = Some x" "\<not> isRevealed x"
      and x': "cellAt (setCell (grid s) i j (c\<lparr>isRevealed := True\<rparr>)) a b = Some x'" "isRevealed x'"
    have ex: "cellAt (grid s) i j \<noteq> None" using c(1) by simp
    have "a = i \<and> b = j" using cellAt_setCell[OF ex, of _ a b] x x' by (cases "a = i \<and> b = j") auto
    then show "(a, b) \<in> ?R" using floodRegion.start[OF c] by simp
  qed
  from Suc.prems(3) show ?case
  proof (cases rule: revealCell_cases)
    case idle
    then show ?thesis by (simp add: within_refl)
  next
    case (blocked c)
    then show ?thesis by (simp add: within_refl)
  next
    case (mine c)
    then show ?thesis using nm by simp
  next
    case (number c)
    then show ?thesis using only[OF number(2,3,4)] by (simp add: checkWin_def)
  next
    case (flood c s2)
    let ?s1 = "s\<lparr>grid := setCell (grid s) i j (c\<lparr>isRevealed := True\<rparr>)\<rparr>"
    have e1: "evolves s ?s1" using flood(2) by (rule evolves_reveal)
    let ?I = "\<lambda>a. evolves ?s1 a \<and> within (grid ?s1) (grid a) ?R"
    have "?I s2"
    proof (rule forEach_inv[OF flood(7), where I = ?I])
      show "?I ?s1" by (simp add: evolves_refl within_refl)
    next
      fix p a b assume p: "p \<in> set (neighbours i j)" and a: "?I a" and v: "visit n now p a = Some (Inr b)"
      have ea: "evolves s a" using e1 a evolves_trans by blast
      then have ga: "grew (grid s) (grid a)" by (simp add: evolves_def)
      from v show "?I b"
      proof (cases rule: visit_cases)
        case skip
        then show ?thesis using a by simp
      next
        case call
        have pn: "(fst p, snd p) \<in> set (neighbours i j)" using p by simp
        have tgt: "\<forall>y'. cellAt (grid a) (fst p) (snd p) = Some y' \<longrightarrow> \<not> isMine y'"
        proof (intro allI impI)
          fix y' assume "cellAt (grid a) (fst p) (snd p) = Some y'"
          from grew_back[OF ga this] obtain y where y: "cellAt (grid s) (fst p) (snd p) = Some y"
            "isMine y = isMine y'" by blast
          with sz flood(2,5,6) pn have "\<not> isMine y" unfolding safeZeros_def by blast
          then show "\<not> isMine y'" using y(2) by simp
        qed
        have sza: "safeZeros (grid a)" using grew_safeZeros[OF ga sz] .
        from Suc.IH[OF sza tgt call(5)]
        have ih: "within (grid a) (grid b) (floodRegion (grid a) (fst p) (snd p))" .
        have sub: "within (grid a) (grid b) ?R"
          unfolding within_def
        proof (intro allI impI)
          fix u v x x'
          assume "cellAt (grid a) u v = Some x" "\<not> isRevealed x" "cellAt (grid b) u v = Some x'"
            "isRevealed x'"
          then have "(u, v) \<in> floodRegion (grid a) (fst p) (snd p)"
            using ih unfolding within_def by blast
          then show "(u, v) \<in> ?R"
            by (rule floodRegion_mono[OF ga flood(2,3,4,5,6) pn])
        qed
        have eb: "evolves a b" using call(5) by (rule revealCell_evolves)
        have "within (grid ?s1) (grid b) ?R"
          using within_trans[OF _ _ sub] a by (simp add: evolves_def)
        moreover have "evolves ?s1 b" using a eb evolves_trans by blast
        ultimately show ?thesis by simp
      qed
    qed
    then have w2: "within (grid ?s1) (grid s2) ?R" by simp
    have w1: "within (grid s) (grid ?s1) ?R" using only[OF flood(2,3,4)] by simp
    have g1: "grew (grid s) (grid ?s1)" using grew_setCell[OF flood(2)] by simp
    from within_trans[OF g1 w1 w2] flood(8)
    show ?thesis by (simp add: checkWin_def)
  qed
qed

section \<open>The cells a reveal uncovers\<close>

lemma floodRegion_revealed:
  assumes g: "grew g g'" and d: "doneAt g' i j" and c: "closed g g'"
    and m: "(u, v) \<in> floodRegion g i j"
  shows "\<exists>x'. cellAt g' u v = Some x' \<and> isRevealed x'"
  using m
proof (induction rule: floodRegion.induct)
  case (start x)
  from grew_forth[OF g start(1)] obtain x' where x': "cellAt g' i j = Some x'"
    "isFlagged x' = isFlagged x" by blast
  then have "isRevealed x'" using d start(3) unfolding doneAt_def by auto
  with x'(1) show ?case by blast
next
  case (spread a b x a' b' y)
  from spread.IH obtain x' where x': "cellAt g' a b = Some x'" "isRevealed x'" by blast
  from floodRegion_open[OF spread(1)] spread(2) have "\<not> isRevealed x" by simp
  then have "doneAt g' a' b'"
    using c spread(2,4,5) x' unfolding closed_def by fastforce
  moreover from grew_forth[OF g spread(6)] obtain y' where y': "cellAt g' a' b' = Some y'"
    "isFlagged y' = isFlagged y" by blast
  ultimately have "isRevealed y'" using spread(8) unfolding doneAt_def by auto
  with y'(1) show ?case by blast
qed

lemma floodRegion_specRegion:
  assumes "safeZeros g" and "(u, v) \<in> floodRegion g i j"
  shows "(u, v) \<in> specRegion g i j"
  using assms(2)
proof (induction rule: floodRegion.induct)
  case (start x)
  from start(1) show ?case by (rule specRegion.origin)
next
  case (spread a b x a' b' y)
  from assms(1) spread(2,3,4,5,6) have "\<not> isMine y" unfolding safeZeros_def by blast
  from specRegion.border[OF spread.IH spread(2,3,4,5,6) this spread(8)] show ?case .
qed

lemma specRegion_floodRegion:
  assumes "cellAt g i j = Some cell" and "\<not> isRevealed cell" and "\<not> isFlagged cell"
    and un: "\<And>a b x. (a, b) \<in> specRegion g i j \<Longrightarrow> cellAt g a b = Some x \<Longrightarrow> \<not> isRevealed x"
    and m: "(u, v) \<in> specRegion g i j"
  shows "(u, v) \<in> floodRegion g i j"
  using m
proof (induction rule: specRegion.induct)
  case (origin x)
  show ?case using assms(1,2,3) by (rule floodRegion.start)
next
  case (border a b x a' b' y)
  have "(a', b') \<in> specRegion g i j"
    using specRegion.border[OF border(1,2,3,4,5,6,7,8)] .
  from un[OF this border(6)] have "\<not> isRevealed y" .
  from floodRegion.spread[OF border.IH border(2,3,4,5,6) this border(8)] show ?case .
qed

text \<open>
  Claim C3, amended. In a match in status \<open>playing\<close> with correct counts, a reveal of an
  unrevealed, unflagged cell that is not a mine and has \<open>neighborMines = 0\<close> returns (with
  a call depth above the number of cells) and reveals exactly the cells of
  \<open>floodRegion\<close>: those reached from the target by steps to one of the eight neighbours,
  each step leaving a cell with count 0 and each cell on the way unrevealed and
  unflagged before the call. Nothing else changes in the grid. No cell of the region is
  a mine or flagged. The region lies inside the region of the specification, and is
  equal to it when that one holds no revealed cell.
\<close>

theorem flood_fill_region:
  assumes "wfState s" and "countsOK (grid s)" and "status s = Playing"
    and "cellAt (grid s) i j = Some cell" and "\<not> isRevealed cell" and "\<not> isFlagged cell"
    and "\<not> isMine cell" and "neighborMines cell = 0" and "allCells (grid s) < depth"
  shows "\<exists>s'. revealCell depth now i j s = Some (Inr s') \<and>
     map length (grid s') = map length (grid s) \<and>
     (\<forall>a b x. cellAt (grid s) a b = Some x \<longrightarrow>
        cellAt (grid s') a b =
          Some (x\<lparr>isRevealed := isRevealed x \<or> (a, b) \<in> floodRegion (grid s) i j\<rparr>)) \<and>
     (\<forall>p\<in>floodRegion (grid s) i j. \<exists>x. cellAt (grid s) (fst p) (snd p) = Some x \<and>
        \<not> isMine x \<and> \<not> isFlagged x \<and> \<not> isRevealed x) \<and>
     floodRegion (grid s) i j \<subseteq> specRegion (grid s) i j \<and>
     ((\<forall>p\<in>specRegion (grid s) i j. \<forall>x. cellAt (grid s) (fst p) (snd p) = Some x \<longrightarrow>
          \<not> isRevealed x) \<longrightarrow>
        floodRegion (grid s) i j = specRegion (grid s) i j)"
proof -
  let ?R = "floodRegion (grid s) i j"
  have sz: "safeZeros (grid s)" using assms(2) by (rule countsOK_safeZeros)
  have "card (hidden (grid s)) < depth"
    using hidden_bound(2)[of "grid s" "rows s" "cols s"] assms(1,9) by (simp add: wfState_def)
  then obtain s' where r: "revealCell depth now i j s = Some (Inr s')"
    using revealCell_returns[OF assms(1), of depth i j now] assms(4) by auto
  have g: "grew (grid s) (grid s')" using revealCell_evolves[OF r] by (simp add: evolves_def)
  have ok: "okStatus s" using assms(3) by (simp add: okStatus_def)
  from revealCell_closed[OF assms(1) sz ok assms(4,7) r]
  have d: "doneAt (grid s') i j" and c: "closed (grid s) (grid s')" by simp_all
  have w: "within (grid s) (grid s') ?R"
    using revealCell_within[OF sz _ r] assms(4,7) by simp
  have cells: "cellAt (grid s') a b = Some (x\<lparr>isRevealed := isRevealed x \<or> (a, b) \<in> ?R\<rparr>)"
    if x: "cellAt (grid s) a b = Some x" for a b x
  proof -
    from g x obtain q where q: "cellAt (grid s') a b = Some (x\<lparr>isRevealed := q\<rparr>)" "isRevealed x \<longrightarrow> q"
      unfolding grew_def by blast
    have "q \<longleftrightarrow> isRevealed x \<or> (a, b) \<in> ?R"
    proof (cases "isRevealed x")
      case True
      then show ?thesis using q(2) by simp
    next
      case False
      show ?thesis
      proof (cases "(a, b) \<in> ?R")
        case True
        from floodRegion_revealed[OF g d c True] q(1) have q by simp
        then show ?thesis using True by simp
      next
        case out: False
        have "\<not> q"
        proof
          assume q
          then have "(a, b) \<in> ?R" using w x False q(1) unfolding within_def by fastforce
          with out show False ..
        qed
        then show ?thesis using False out by simp
      qed
    qed
    then show ?thesis using q(1) by simp
  qed
  have props: "\<exists>x. cellAt (grid s) (fst p) (snd p) = Some x \<and> \<not> isMine x \<and> \<not> isFlagged x \<and>
      \<not> isRevealed x" if "p \<in> ?R" for p
  proof -
    obtain u v where p: "p = (u, v)" by (cases p)
    with that have m: "(u, v) \<in> ?R" by simp
    from floodRegion_open[OF m] obtain x where x: "cellAt (grid s) u v = Some x"
      "\<not> isRevealed x" "\<not> isFlagged x" by blast
    have "\<not> isMine x" using floodRegion_safe[OF m sz] assms(4,7) x(1) by simp
    with x show ?thesis unfolding p by simp
  qed
  have sub: "?R \<subseteq> specRegion (grid s) i j"
    using floodRegion_specRegion[OF sz] by auto
  have eq: "?R = specRegion (grid s) i j"
    if un: "\<forall>p\<in>specRegion (grid s) i j. \<forall>x. cellAt (grid s) (fst p) (snd p) = Some x \<longrightarrow>
          \<not> isRevealed x"
  proof -
    have "(u, v) \<in> ?R" if "(u, v) \<in> specRegion (grid s) i j" for u v
      by (rule specRegion_floodRegion[OF assms(4,5,6) _ that]) (use un in fastforce)
    then show ?thesis using sub by auto
  qed
  have len: "map length (grid s') = map length (grid s)" using g by (simp add: grew_def)
  show ?thesis using r len cells props sub eq by blast
qed

theorem flood_fill_region_witness:
  "wfState oneMine \<and> countsOK (grid oneMine) \<and> status oneMine = Playing \<and>
   cellAt (grid oneMine) 0 2 \<noteq> None \<and> allCells (grid oneMine) < 4 \<and>
   revealCell 4 2000 0 2 oneMine = Some (Inr oneMineWon) \<and>
   (0, 1) \<in> floodRegion (grid oneMine) 0 2 \<and> (0, 0) \<notin> floodRegion (grid oneMine) 0 2"
proof -
  let ?m = "\<lparr>cellR = 0, cellC = 0, isMine = True, isRevealed = False,
       isFlagged = False, neighborMines = 0\<rparr>"
  let ?n = "\<lparr>cellR = 0, cellC = 1, isMine = False, isRevealed = False,
       isFlagged = False, neighborMines = 1\<rparr>"
  let ?c = "\<lparr>cellR = 0, cellC = 2, isMine = False, isRevealed = False,
       isFlagged = False, neighborMines = 0\<rparr>"
  have h: "wfState oneMine" "countsOK (grid oneMine)"
    unfolding oneMine_def by code_simp+
  have h2: "status oneMine = Playing" "cellAt (grid oneMine) 0 2 = Some ?c"
    "allCells (grid oneMine) < 4"
    by (simp_all add: oneMine_def cellAt_def allCells_def)
  have c0: "cellAt (grid oneMine) 0 0 = Some ?m" and c1: "cellAt (grid oneMine) 0 1 = Some ?n"
    by (simp_all add: oneMine_def cellAt_def)
  have w0: "cellAt (grid oneMineWon) 0 0 = Some ?m"
    and w1: "cellAt (grid oneMineWon) 0 1 = Some (?n\<lparr>isRevealed := True\<rparr>)"
    by (simp_all add: oneMineWon_def cellAt_def)
  from flood_fill_region[OF h h2(1,2) _ _ _ _ h2(3), of 2000] oneMine_reveal
  have cells: "\<forall>a b x. cellAt (grid oneMine) a b = Some x \<longrightarrow>
        cellAt (grid oneMineWon) a b =
          Some (x\<lparr>isRevealed := isRevealed x \<or> (a, b) \<in> floodRegion (grid oneMine) 0 2\<rparr>)"
    by simp
  from cells c0 w0 have "?m = ?m\<lparr>isRevealed := isRevealed ?m \<or> (0, 0) \<in> floodRegion (grid oneMine) 0 2\<rparr>"
    by (metis option.inject)
  then have a0: "(0, 0) \<notin> floodRegion (grid oneMine) 0 2"
    by (metis Cell.select_convs(4) Cell.simps(11))
  from cells c1 w1 have "?n\<lparr>isRevealed := True\<rparr> =
      ?n\<lparr>isRevealed := isRevealed ?n \<or> (0, 1) \<in> floodRegion (grid oneMine) 0 2\<rparr>"
    by (metis option.inject)
  then have a1: "(0, 1) \<in> floodRegion (grid oneMine) 0 2"
    by (metis Cell.select_convs(4) Cell.simps(11))
  show ?thesis using h h2 oneMine_reveal a0 a1 by simp
qed

text \<open>
  The claim as stated fails. On the 1 by 3 board without mines, flag the two outer
  cells, reveal the middle one, and take the flags off again. The board is all one
  region of cells with count 0, no cell is flagged, yet a reveal of the left cell stops
  at the revealed middle cell and leaves the right cell unrevealed.
\<close>

theorem flood_stops_at_revealed:
  "createNewGame 1000 1 3 0 [] = Some (Inr threeSafe) \<and>
   runActions 4 [(2000, Flag 0 0), (2000, Flag 0 2), (2000, Reveal 0 1), (2000, Flag 0 0),
     (2000, Flag 0 2)] threeSafe = Some (Inr blockedExample) \<and>
   status blockedExample = Playing \<and>
   \<not> isRevealed (grid blockedExample ! 0 ! 0) \<and> \<not> isFlagged (grid blockedExample ! 0 ! 0) \<and>
   neighborMines (grid blockedExample ! 0 ! 0) = 0 \<and>
   (0, 2) \<in> specRegion (grid blockedExample) 0 0 \<and>
   \<not> isMine (grid blockedExample ! 0 ! 2) \<and> \<not> isFlagged (grid blockedExample ! 0 ! 2) \<and>
   \<not> isRevealed (grid blockedExample ! 0 ! 2) \<and>
   revealCell 4 3000 0 0 blockedExample = Some (Inr blockedAfter) \<and>
   \<not> isRevealed (grid blockedAfter ! 0 ! 2)"
proof -
  have g: "createNewGame 1000 1 3 0 [] = Some (Inr threeSafe)"
    unfolding threeSafe_def by code_simp
  have run: "runActions 4 [(2000, Flag 0 0), (2000, Flag 0 2), (2000, Reveal 0 1), (2000, Flag 0 0),
     (2000, Flag 0 2)] threeSafe = Some (Inr blockedExample)"
    unfolding threeSafe_def blockedExample_def by code_simp
  have r: "revealCell 4 3000 0 0 blockedExample = Some (Inr blockedAfter)"
    unfolding blockedExample_def blockedAfter_def by code_simp
  have c: "cellAt (grid blockedExample) 0 0 = Some (grid blockedExample ! 0 ! 0)"
    "cellAt (grid blockedExample) 0 1 = Some (grid blockedExample ! 0 ! 1)"
    "cellAt (grid blockedExample) 0 2 = Some (grid blockedExample ! 0 ! 2)"
    by (simp_all add: blockedExample_def cellAt_def)
  have f: "\<not> isMine (grid blockedExample ! 0 ! 0)" "neighborMines (grid blockedExample ! 0 ! 0) = 0"
    "\<not> isMine (grid blockedExample ! 0 ! 1)" "neighborMines (grid blockedExample ! 0 ! 1) = 0"
    "\<not> isFlagged (grid blockedExample ! 0 ! 1)"
    "\<not> isMine (grid blockedExample ! 0 ! 2)" "\<not> isFlagged (grid blockedExample ! 0 ! 2)"
    "\<not> isRevealed (grid blockedExample ! 0 ! 2)"
    "\<not> isRevealed (grid blockedExample ! 0 ! 0)" "\<not> isFlagged (grid blockedExample ! 0 ! 0)"
    "status blockedExample = Playing"
    by (simp_all add: blockedExample_def)
  have n: "(0, 1) \<in> set (neighbours 0 0)" "(0, 2) \<in> set (neighbours 0 1)"
    by (simp_all add: neighbours_list)
  have m0: "(0, 0) \<in> specRegion (grid blockedExample) 0 0"
    using c(1) by (rule specRegion.origin)
  have m1: "(0, 1) \<in> specRegion (grid blockedExample) 0 0"
    by (rule specRegion.border[OF m0 c(1) f(1,2) n(1) c(2) f(3,5)])
  have m2: "(0, 2) \<in> specRegion (grid blockedExample) 0 0"
    by (rule specRegion.border[OF m1 c(2) f(3,4) n(2) c(3) f(6,7)])
  have a: "\<not> isRevealed (grid blockedAfter ! 0 ! 2)" by (simp add: blockedAfter_def)
  show ?thesis using g run r m2 f a by simp
qed

section \<open>Flags and revealed cells\<close>

lemma reachable_runActions:
  "reachable s \<Longrightarrow> runActions depth evs s = Some (Inr s') \<Longrightarrow> reachable s'"
proof (induction evs arbitrary: s)
  case Nil
  then show ?case by (simp add: runActions_def)
next
  case (Cons e evs)
  obtain now a where e: "e = (now, a)" by (cases e)
  from Cons.prems(2) obtain t where t: "applyAction depth now a s = Some (Inr t)"
    and rest: "runActions depth evs t = Some (Inr s')"
    unfolding runActions_def e by (auto split: option.splits sum.splits)
  have "reachable t" using reachable.step[OF Cons.prems(1) t] .
  from Cons.IH[OF this rest] show ?case .
qed

lemma twoMinesFresh_generated: "createNewGame 1000 1 3 2 [(0, 0), (0, 1)] = Some (Inr twoMinesFresh)"
  unfolding twoMinesFresh_def by code_simp

lemma twoMines_trace:
  "runActions 4 [(1500, Flag 0 0)] twoMinesFresh = Some (Inr twoMines)"
  "runActions 4 [(1500, Flag 0 0), (2000, Reveal 0 1)] twoMinesFresh = Some (Inr twoMinesLost)"
  "runActions 4 [(1500, Flag 0 0), (121000, CheckTimeout)] twoMinesFresh = Some (Inr twoMinesTimedOut)"
  unfolding twoMinesFresh_def twoMines_def twoMinesLost_def twoMinesTimedOut_def by code_simp+

lemma twoMines_reachable: "reachable twoMinesFresh" "reachable twoMines" "reachable twoMinesLost"
  "reachable twoMinesTimedOut"
proof -
  show f: "reachable twoMinesFresh"
    by (rule reachable.fresh[OF _ _ _ _ twoMinesFresh_generated]) simp_all
  show "reachable twoMines" "reachable twoMinesLost" "reachable twoMinesTimedOut"
    using reachable_runActions[OF f] twoMines_trace by blast+
qed

lemma grew_flags:
  assumes "grew g g'" and "cellAt g a b = Some x" and "cellAt g' a b = Some x'"
  shows "isFlagged x' = isFlagged x"
proof -
  from grew_forth[OF assms(1,2)] obtain y where "cellAt g' a b = Some y" "isFlagged y = isFlagged x"
    by blast
  then show ?thesis using assms(3) by simp
qed

text \<open>
  Claim C4, amended. In every state a match can reach, a cell that is both revealed and
  flagged is a mine of a lost match: while the status is \<open>playing\<close> or \<open>won\<close> no cell is
  revealed and flagged at once. Flagging a revealed cell changes nothing. A reveal and
  a timeout check never change a flag, and a reveal never uncovers a flagged cell other
  than a mine: flags are not cleared, and the mines that a loss reveals keep theirs.
\<close>

theorem revealed_flagged_only_lost_mines:
  "(reachable s \<longrightarrow>
      (\<forall>a b x. cellAt (grid s) a b = Some x \<longrightarrow> isRevealed x \<longrightarrow> isFlagged x \<longrightarrow>
         isMine x \<and> status s = Lost)) \<and>
   (cellAt (grid s) i j = Some cell \<and> isRevealed cell \<longrightarrow> flagCell i j s = Inr s) \<and>
   (revealCell depth now i j s = Some (Inr s') \<longrightarrow>
      (\<forall>a b x x'. cellAt (grid s) a b = Some x \<longrightarrow> cellAt (grid s') a b = Some x' \<longrightarrow>
         isFlagged x' = isFlagged x \<and>
         (isFlagged x \<longrightarrow> \<not> isMine x \<longrightarrow> isRevealed x' = isRevealed x))) \<and>
   (\<forall>a b x x'. cellAt (grid s) a b = Some x \<longrightarrow>
      cellAt (grid (fst (checkTimeout now s))) a b = Some x' \<longrightarrow>
        isFlagged x' = isFlagged x \<and> (\<not> isMine x \<longrightarrow> isRevealed x' = isRevealed x))"
proof (intro conjI impI allI)
  fix a b x
  assume "reachable s" and x: "cellAt (grid s) a b = Some x" "isRevealed x" "isFlagged x"
  then have "sound s" by (simp add: reachable_sound)
  then have "(isMine x \<longrightarrow> status s = Lost) \<and> (isFlagged x \<longrightarrow> isMine x)"
    using x(1,2) unfolding sound_def by blast
  then show "isMine x" "status s = Lost" using x(3) by simp_all
next
  assume "cellAt (grid s) i j = Some cell \<and> isRevealed cell"
  then show "flagCell i j s = Inr s" by (simp add: flagCell_def)
next
  fix a b x x'
  assume r: "revealCell depth now i j s = Some (Inr s')"
    and x: "cellAt (grid s) a b = Some x" and x': "cellAt (grid s') a b = Some x'"
  have g: "grew (grid s) (grid s')" using revealCell_evolves[OF r] by (simp add: evolves_def)
  show "isFlagged x' = isFlagged x" using grew_flags[OF g x x'] .
  assume f: "isFlagged x" "\<not> isMine x"
  from grew_forth[OF g x] x' have mono: "isRevealed x \<longrightarrow> isRevealed x'" by auto
  have "\<not> (\<not> isRevealed x \<and> isRevealed x')"
    using revealCell_flags[OF r] x x' f unfolding flagsRespected_def by blast
  then show "isRevealed x' = isRevealed x" using mono by blast
next
  fix a b x x'
  assume x: "cellAt (grid s) a b = Some x"
    and x': "cellAt (grid (fst (checkTimeout now s))) a b = Some x'"
  have "fst (checkTimeout now s) = s \<or>
      fst (checkTimeout now s) = s\<lparr>status := Lost, endTime := Some now, grid := revealAllMines (grid s)\<rparr>"
    by (auto simp: checkTimeout_def Let_def split: option.splits)
  then have "x' = x \<or> x' = (if isMine x then x\<lparr>isRevealed := True\<rparr> else x)"
    using x x' by (auto simp: cellAt_revealAllMines)
  then show "isFlagged x' = isFlagged x" by (auto split: if_splits)
  assume "\<not> isMine x"
  with \<open>x' = x \<or> x' = (if isMine x then x\<lparr>isRevealed := True\<rparr> else x)\<close>
  show "isRevealed x' = isRevealed x" by (auto split: if_splits)
qed

theorem revealed_flagged_only_lost_mines_witness:
  "reachable twoMinesLost \<and> cellAt (grid twoMinesLost) 0 0 \<noteq> None \<and>
   isRevealed (grid twoMinesLost ! 0 ! 0) \<and> isFlagged (grid twoMinesLost ! 0 ! 0) \<and>
   isMine (grid twoMinesLost ! 0 ! 0) \<and> status twoMinesLost = Lost \<and>
   flagCell 0 2 twoMinesWon = Inr twoMinesWon \<and>
   revealCell 4 2000 0 2 twoMines = Some (Inr twoMinesWon) \<and>
   isFlagged (grid twoMinesWon ! 0 ! 0) \<and>
   isFlagged (grid (fst (checkTimeout 121000 twoMines)) ! 0 ! 0)"
proof -
  let ?f = "\<lparr>cellR = 0, cellC = 0, isMine = True, isRevealed = False,
       isFlagged = True, neighborMines = 0\<rparr>"
  have c: "cellAt (grid twoMinesLost) 0 0 = Some (grid twoMinesLost ! 0 ! 0)"
    "isRevealed (grid twoMinesLost ! 0 ! 0)" "isFlagged (grid twoMinesLost ! 0 ! 0)"
    by (simp_all add: twoMinesLost_def cellAt_def)
  have w: "cellAt (grid twoMinesWon) 0 2 = Some (grid twoMinesWon ! 0 ! 2)"
    "isRevealed (grid twoMinesWon ! 0 ! 2)"
    "cellAt (grid twoMinesWon) 0 0 = Some (grid twoMinesWon ! 0 ! 0)"
    by (simp_all add: twoMinesWon_def cellAt_def)
  have t: "cellAt (grid twoMines) 0 0 = Some ?f"
    by (simp add: twoMines_def cellAt_def)
  have o: "cellAt (grid (fst (checkTimeout 121000 twoMines))) 0 0 =
      Some (grid (fst (checkTimeout 121000 twoMines)) ! 0 ! 0)"
    by (simp add: twoMines_def checkTimeout_def revealAllMines_def cellAt_def)
  note t1 = revealed_flagged_only_lost_mines[of twoMinesLost 0 0 "grid twoMinesLost ! 0 ! 0" 4 2000
      twoMinesLost]
  note t2 = revealed_flagged_only_lost_mines[of twoMinesWon 0 2 "grid twoMinesWon ! 0 ! 2" 4 2000
      twoMinesWon]
  note t3 = revealed_flagged_only_lost_mines[of twoMines 0 2 ?f 4 2000 twoMinesWon]
  note t4 = revealed_flagged_only_lost_mines[of twoMines 0 2 ?f 4 121000 twoMinesWon]
  from t1 twoMines_reachable(3) c
  have a1: "isMine (grid twoMinesLost ! 0 ! 0) \<and> status twoMinesLost = Lost" by blast
  from t2 w(1,2) have a2: "flagCell 0 2 twoMinesWon = Inr twoMinesWon" by blast
  from t3 twoMines_reveal
  have "\<forall>a b x x'. cellAt (grid twoMines) a b = Some x \<longrightarrow> cellAt (grid twoMinesWon) a b = Some x' \<longrightarrow>
         isFlagged x' = isFlagged x \<and>
         (isFlagged x \<longrightarrow> \<not> isMine x \<longrightarrow> isRevealed x' = isRevealed x)"
    by blast
  with t w(3) have "isFlagged (grid twoMinesWon ! 0 ! 0) = isFlagged ?f" by blast
  then have a3: "isFlagged (grid twoMinesWon ! 0 ! 0)" by simp
  from t4 have "\<forall>a b x x'. cellAt (grid twoMines) a b = Some x \<longrightarrow>
      cellAt (grid (fst (checkTimeout 121000 twoMines))) a b = Some x' \<longrightarrow>
        isFlagged x' = isFlagged x \<and> (\<not> isMine x \<longrightarrow> isRevealed x' = isRevealed x)"
    by blast
  with t o have "isFlagged (grid (fst (checkTimeout 121000 twoMines)) ! 0 ! 0) = isFlagged ?f"
    by blast
  then have a4: "isFlagged (grid (fst (checkTimeout 121000 twoMines)) ! 0 ! 0)" by simp
  show ?thesis using twoMines_reachable(3) c a1 a2 twoMines_reveal a3 a4 by simp
qed

text \<open>
  The claim as stated fails. On a 1 by 3 board with mines in the first two cells, flag
  the first cell; a click on the second mine, or the timeout, loses the match and
  reveals the flagged mine, whose flag stays.
\<close>

theorem flagged_mine_revealed_on_loss:
  "createNewGame 1000 1 3 2 [(0, 0), (0, 1)] = Some (Inr twoMinesFresh) \<and>
   runActions 4 [(1500, Flag 0 0), (2000, Reveal 0 1)] twoMinesFresh = Some (Inr twoMinesLost) \<and>
   reachable twoMinesLost \<and>
   isRevealed (grid twoMinesLost ! 0 ! 0) \<and> isFlagged (grid twoMinesLost ! 0 ! 0) \<and>
   runActions 4 [(1500, Flag 0 0), (121000, CheckTimeout)] twoMinesFresh =
     Some (Inr twoMinesTimedOut) \<and>
   reachable twoMinesTimedOut \<and>
   isRevealed (grid twoMinesTimedOut ! 0 ! 0) \<and> isFlagged (grid twoMinesTimedOut ! 0 ! 0)"
proof -
  have "isRevealed (grid twoMinesLost ! 0 ! 0)" "isFlagged (grid twoMinesLost ! 0 ! 0)"
    "isRevealed (grid twoMinesTimedOut ! 0 ! 0)" "isFlagged (grid twoMinesTimedOut ! 0 ! 0)"
    by (simp_all add: twoMinesLost_def twoMinesTimedOut_def)
  then show ?thesis
    using twoMinesFresh_generated twoMines_trace(2,3) twoMines_reachable(3,4) by simp
qed

section \<open>The client reveals what the server reveals\<close>

lemma clientVisit_measure:
  "clientVisit rws cls nr nc gq = Some (Inr gq') \<Longrightarrow>
   2 * unrevealedCells (fst gq') + length (snd gq') \<le> 2 * unrevealedCells (fst gq) + length (snd gq)"
proof -
  assume a: "clientVisit rws cls nr nc gq = Some (Inr gq')"
  show ?thesis
  proof (cases "gq' = gq")
    case True
    then show ?thesis by simp
  next
    case False
    then obtain y where y: "cellAt (fst gq) nr nc = Some y" "\<not> isRevealed y"
      and g': "fst gq' = setCell (fst gq) nr nc (y\<lparr>isRevealed := True\<rparr>)"
      and q': "length (snd gq') \<le> length (snd gq) + 1"
      using a unfolding clientVisit_def by (auto split: if_splits option.splits)
    from count_setCell[OF y(1), of "\<lambda>cell. \<not> isRevealed cell" "y\<lparr>isRevealed := True\<rparr>"] y(2)
    have "unrevealedCells (fst gq') + 1 = unrevealedCells (fst gq)"
      by (simp add: unrevealedCells_def g')
    then show ?thesis using q' by simp
  qed
qed

lemma clientAround_measure:
  assumes "clientAround rws cls cr cc gq = Some (Inr gq')"
  shows "2 * unrevealedCells (fst gq') + length (snd gq') \<le> 2 * unrevealedCells (fst gq) + length (snd gq)"
proof -
  let ?m = "\<lambda>gq. 2 * unrevealedCells (fst gq) + length (snd gq)"
  let ?I = "\<lambda>a. ?m a \<le> ?m gq"
  have inner: "?I b" if "?I a" "forEach offsets (\<lambda>dc. clientVisit rws cls r (cc + dc)) a = Some (Inr b)" for a b r
  proof (rule forEach_inv[OF that(2), where I = ?I])
    show "?I a" by (rule that(1))
  next
    fix x c d assume "?I c" "clientVisit rws cls r (cc + x) c = Some (Inr d)"
    then show "?I d" using clientVisit_measure[of rws cls r "cc + x" c d] by simp
  qed
  show ?thesis
  proof (rule forEach_inv[OF assms[unfolded clientAround_def], where I = ?I])
    show "?I gq" by simp
  next
    fix x a b assume "?I a" "forEach offsets (\<lambda>dc. clientVisit rws cls (cr + x) (cc + dc)) a = Some (Inr b)"
    then show "?I b" by (rule inner)
  qed
qed

termination clientFlood
proof (relation "measure (\<lambda>(rws, cls, q, g). 2 * unrevealedCells g + length q)")
  show "wf (measure (\<lambda>(rws, cls, q, g). 2 * unrevealedCells g + length q))" by simp
next
  fix rws cls cr cc queue g x2 b x1 x2a
  assume "clientAround rws cls cr cc (g, queue) = Some x2" "x2 = Inr b" "(x1, x2a) = b"
  then have "clientAround rws cls cr cc (g, queue) = Some (Inr (x1, x2a))" by simp
  from clientAround_measure[OF this]
  show "((rws, cls, x2a, x1), rws, cls, (cr, cc) # queue, g)
    \<in> measure (\<lambda>(rws, cls, q, g). 2 * unrevealedCells g + length q)"
    by simp
qed

lemma clientAround_flat:
  "clientAround rws cls cr cc gq =
   forEach (neighbours cr cc) (\<lambda>p. clientVisit rws cls (fst p) (snd p)) gq"
proof -
  have m: "forEach (map h xs) f t = forEach xs (\<lambda>x. f (h x)) t"
    for h :: "int \<times> int \<Rightarrow> int \<times> int" and xs f and t :: "Cell list list \<times> (int \<times> int) list"
    by (induction xs arbitrary: t) (auto split: option.splits sum.splits)
  have n: "neighbours cr cc = map (\<lambda>(dr, dc). (cr + dr, cc + dc))
      (concat (map (\<lambda>dr. map (\<lambda>dc. (dr, dc)) offsets) offsets))"
    by (simp add: neighbours_def offsets_def)
  show ?thesis
    unfolding clientAround_def forEach_nested n m
    by (rule arg_cong[where f = "\<lambda>f. forEach _ f gq"]) (auto simp: fun_eq_iff)
qed

lemma clientVisit_cases [consumes 1, case_names same reveal]:
  assumes "clientVisit rws cls nr nc gq = Some (Inr gq')"
  obtains "gq' = gq"
    "\<not> (0 \<le> nr \<and> nr < rws \<and> 0 \<le> nc \<and> nc < cls) \<or>
     (\<exists>y. cellAt (fst gq) nr nc = Some y \<and> (isRevealed y \<or> isFlagged y \<or> isMine y))"
  | y where "0 \<le> nr" "nr < rws" "0 \<le> nc" "nc < cls" "cellAt (fst gq) nr nc = Some y"
      "\<not> isRevealed y" "\<not> isFlagged y" "\<not> isMine y"
      "fst gq' = setCell (fst gq) nr nc (y\<lparr>isRevealed := True\<rparr>)"
      "snd gq' = (if neighborMines y = 0 then snd gq @ [(nr, nc)] else snd gq)"
proof (cases "0 \<le> nr \<and> nr < rws \<and> 0 \<le> nc \<and> nc < cls")
  case False
  then have "clientVisit rws cls nr nc gq = Some (Inr gq)" unfolding clientVisit_def by (rule if_not_P)
  then have "gq' = gq" using assms by simp
  then show ?thesis using False that(1) by blast
next
  case True
  then have e: "clientVisit rws cls nr nc gq =
      (case cellAt (fst gq) nr nc of
           None \<Rightarrow> Some (Inl TypeError)
         | Some y \<Rightarrow>
             if \<not> isRevealed y \<and> \<not> isFlagged y \<and> \<not> isMine y then
               Some (Inr (setCell (fst gq) nr nc (y\<lparr>isRevealed := True\<rparr>),
                 if neighborMines y = 0 then snd gq @ [(nr, nc)] else snd gq))
             else Some (Inr gq))"
    unfolding clientVisit_def by (rule if_P)
  from assms[unfolded e] obtain y where y: "cellAt (fst gq) nr nc = Some y"
    by (cases "cellAt (fst gq) nr nc") auto
  show ?thesis
  proof (cases "\<not> isRevealed y \<and> \<not> isFlagged y \<and> \<not> isMine y")
    case False
    then have "gq' = gq" using assms[unfolded e] y by auto
    then show ?thesis using that(1) y False by blast
  next
    case o: True
    then have "gq' = (setCell (fst gq) nr nc (y\<lparr>isRevealed := True\<rparr>),
                 if neighborMines y = 0 then snd gq @ [(nr, nc)] else snd gq)"
      using assms[unfolded e] y by simp
    then have "fst gq' = setCell (fst gq) nr nc (y\<lparr>isRevealed := True\<rparr>)"
      "snd gq' = (if neighborMines y = 0 then snd gq @ [(nr, nc)] else snd gq)" by simp_all
    then show ?thesis using that(2)[of y] True y o by blast
  qed
qed

lemma clientVisit_grew:
  assumes "clientVisit rws cls nr nc gq = Some (Inr gq')"
  shows "grew (fst gq) (fst gq')"
  using assms
proof (cases rule: clientVisit_cases)
  case same
  then show ?thesis by (simp add: grew_refl)
next
  case (reveal y)
  then show ?thesis using grew_setCell[OF reveal(5)] by simp
qed

lemma clientVisit_total:
  assumes "rectGrid (fst gq) rws cls"
  shows "\<exists>gq'. clientVisit rws cls nr nc gq = Some (Inr gq')"
proof (cases "0 \<le> nr \<and> nr < rws \<and> 0 \<le> nc \<and> nc < cls")
  case False
  then have "clientVisit rws cls nr nc gq = Some (Inr gq)" unfolding clientVisit_def by (rule if_not_P)
  then show ?thesis by blast
next
  case True
  then have "cellAt (fst gq) nr nc \<noteq> None" using rectGrid_cellAt[OF assms] by simp
  then obtain y where "cellAt (fst gq) nr nc = Some y" by auto
  then show ?thesis using True by (simp add: clientVisit_def)
qed

lemma clientVisit_inv:
  assumes rect: "rectGrid g0 rws cls" and sz: "safeZeros g0"
    and inv: "floodInv g0 (floodRegion g0 i j) {(cr, cc)} hq"
    and p: "(nr, nc) \<in> set (neighbours cr cc)"
    and v: "clientVisit rws cls nr nc hq = Some (Inr hq')"
  shows "floodInv g0 (floodRegion g0 i j) {(cr, cc)} hq' \<and> doneAt (fst hq') nr nc"
proof -
  let ?R = "floodRegion g0 i j"
  from inv have g: "grew g0 (fst hq)" and w: "within g0 (fst hq) ?R"
    and q: "\<And>p. p \<in> set (snd hq) \<union> {(cr, cc)} \<Longrightarrow> p \<in> ?R \<and>
         (\<exists>x. cellAt g0 (fst p) (snd p) = Some x \<and> \<not> isMine x \<and> neighborMines x = 0)"
    and c: "\<And>a b x x'. cellAt g0 a b = Some x \<Longrightarrow> \<not> isRevealed x \<Longrightarrow>
         cellAt (fst hq) a b = Some x' \<Longrightarrow> isRevealed x' \<Longrightarrow> neighborMines x = 0 \<Longrightarrow>
           (a, b) \<in> set (snd hq) \<union> {(cr, cc)} \<or>
           (\<forall>p\<in>set (neighbours a b). doneAt (fst hq) (fst p) (snd p))"
    unfolding floodInv_def by blast+
  from q[of "(cr, cc)"] obtain xc where xc: "(cr, cc) \<in> ?R" "cellAt g0 cr cc = Some xc"
    "\<not> isMine xc" "neighborMines xc = 0" by auto
  have rh: "rectGrid (fst hq) rws cls" using rectGrid_shape[of "fst hq" g0] g rect by (simp add: grew_def)
  from v show ?thesis
  proof (cases rule: clientVisit_cases)
    case same
    have "doneAt (fst hq) nr nc"
      unfolding doneAt_def
    proof (intro allI impI)
      fix y assume y: "cellAt (fst hq) nr nc = Some y"
      from grew_back[OF g y] obtain y0 where y0: "cellAt g0 nr nc = Some y0" "isMine y0 = isMine y"
        by blast
      from sz xc(2,3,4) p y0(1) have "\<not> isMine y0" unfolding safeZeros_def by blast
      then have "\<not> isMine y" using y0(2) by simp
      moreover have "0 \<le> nr \<and> nr < rws \<and> 0 \<le> nc \<and> nc < cls"
        using rectGrid_cellAt[OF rh, of nr nc] y by simp
      ultimately show "isRevealed y \<or> isFlagged y" using same(2) y by auto
    qed
    then show ?thesis using inv same(1) by simp
  next
    case (reveal y)
    let ?h' = "setCell (fst hq) nr nc (y\<lparr>isRevealed := True\<rparr>)"
    have ex: "cellAt (fst hq) nr nc \<noteq> None" using reveal(5) by simp
    have at: "cellAt ?h' a b = (if a = nr \<and> b = nc then Some (y\<lparr>isRevealed := True\<rparr>) else cellAt (fst hq) a b)" for a b
      using cellAt_setCell[OF ex] by simp
    have gs: "grew (fst hq) ?h'" using reveal(5) by (rule grew_setCell)
    have g': "grew g0 ?h'" using grew_trans[OF g gs] .
    from grew_back[OF g reveal(5)] obtain y0 where y0: "cellAt g0 nr nc = Some y0"
      "isMine y0 = isMine y" "isFlagged y0 = isFlagged y" "neighborMines y0 = neighborMines y"
      "isRevealed y0 \<longrightarrow> isRevealed y" by blast
    have inR: "(nr, nc) \<in> ?R"
      using floodRegion.spread[OF xc(1,2,3,4) p y0(1)] y0(3,5) reveal(6,7) by simp
    have w': "within g0 ?h' ?R"
      unfolding within_def
    proof (intro allI impI)
      fix a b x x'
      assume x: "cellAt g0 a b = Some x" "\<not> isRevealed x" and x': "cellAt ?h' a b = Some x'" "isRevealed x'"
      show "(a, b) \<in> ?R"
      proof (cases "a = nr \<and> b = nc")
        case True
        then show ?thesis using inR by simp
      next
        case False
        then have "cellAt (fst hq) a b = Some x'" using at[of a b] x'(1) by auto
        then show ?thesis using w x x'(2) unfolding within_def by blast
      qed
    qed
    have q': "p \<in> ?R \<and> (\<exists>x. cellAt g0 (fst p) (snd p) = Some x \<and> \<not> isMine x \<and> neighborMines x = 0)"
      if "p \<in> set (snd hq') \<union> {(cr, cc)}" for p
    proof (cases "p \<in> set (snd hq) \<union> {(cr, cc)}")
      case True
      then show ?thesis by (rule q)
    next
      case False
      with that reveal(10) have "p = (nr, nc)" "neighborMines y = 0" by (auto split: if_splits)
      then show ?thesis using inR y0 reveal(8) by simp
    qed
    have c': "(a, b) \<in> set (snd hq') \<union> {(cr, cc)} \<or>
           (\<forall>p\<in>set (neighbours a b). doneAt ?h' (fst p) (snd p))"
      if x: "cellAt g0 a b = Some x" "\<not> isRevealed x" "neighborMines x = 0"
        and x': "cellAt ?h' a b = Some x'" "isRevealed x'" for a b x x'
    proof (cases "a = nr \<and> b = nc")
      case True
      then have "x = y0" using x(1) y0(1) by simp
      then have "neighborMines y = 0" using x(3) y0(4) by simp
      then show ?thesis using reveal(10) True by simp
    next
      case False
      then have "cellAt (fst hq) a b = Some x'" using at[of a b] x'(1) by auto
      from c[OF x(1,2) this x'(2) x(3)] show ?thesis
      proof
        assume "(a, b) \<in> set (snd hq) \<union> {(cr, cc)}"
        then show ?thesis using reveal(10) by auto
      next
        assume "\<forall>p\<in>set (neighbours a b). doneAt (fst hq) (fst p) (snd p)"
        then show ?thesis using doneAt_grew[OF gs] by blast
      qed
    qed
    have d: "doneAt ?h' nr nc" using at[of nr nc] by (simp add: doneAt_def)
    have "floodInv g0 ?R {(cr, cc)} hq'"
      unfolding floodInv_def reveal(9) using g' w' q' c'[unfolded reveal(9)[symmetric]] reveal(9)
      by (intro conjI ballI allI impI) auto
    then show ?thesis using d reveal(9) by simp
  qed
qed

lemma floodInv_cong:
  "set (snd hq) \<union> C = set (snd hq') \<union> C' \<Longrightarrow> fst hq = fst hq' \<Longrightarrow>
   floodInv g0 R C hq = floodInv g0 R C' hq'"
  unfolding floodInv_def by simp

lemma floodInv_pop:
  assumes "floodInv g0 R {} (g, p # q)"
  shows "floodInv g0 R {p} (g, q)"
proof -
  have "set (snd (g, p # q)) \<union> {} = set (snd (g, q)) \<union> {p}" by auto
  from floodInv_cong[OF this, of g0 R] assms show ?thesis by simp
qed

lemma floodInv_done:
  assumes inv: "floodInv g0 R {c} hq"
    and around: "\<forall>p\<in>set (neighbours (fst c) (snd c)). doneAt (fst hq) (fst p) (snd p)"
  shows "floodInv g0 R {} hq"
proof -
  have g: "grew g0 (fst hq)" and w: "within g0 (fst hq) R"
    using inv by (simp_all add: floodInv_def)
  have q: "\<forall>p\<in>set (snd hq) \<union> {c}. p \<in> R \<and>
         (\<exists>x. cellAt g0 (fst p) (snd p) = Some x \<and> \<not> isMine x \<and> neighborMines x = 0)"
    using inv unfolding floodInv_def by (elim conjE)
  have z: "\<forall>a b x x'. cellAt g0 a b = Some x \<longrightarrow> \<not> isRevealed x \<longrightarrow>
         cellAt (fst hq) a b = Some x' \<longrightarrow> isRevealed x' \<longrightarrow> neighborMines x = 0 \<longrightarrow>
           (a, b) \<in> set (snd hq) \<union> {c} \<or>
           (\<forall>p\<in>set (neighbours a b). doneAt (fst hq) (fst p) (snd p))"
    using inv unfolding floodInv_def by (elim conjE)
  have q': "\<forall>p\<in>set (snd hq) \<union> {}. p \<in> R \<and>
         (\<exists>x. cellAt g0 (fst p) (snd p) = Some x \<and> \<not> isMine x \<and> neighborMines x = 0)"
  proof
    fix p assume "p \<in> set (snd hq) \<union> {}"
    then have "p \<in> set (snd hq) \<union> {c}" by simp
    with q show "p \<in> R \<and>
         (\<exists>x. cellAt g0 (fst p) (snd p) = Some x \<and> \<not> isMine x \<and> neighborMines x = 0)"
      by (rule bspec)
  qed
  have z': "\<forall>a b x x'. cellAt g0 a b = Some x \<longrightarrow> \<not> isRevealed x \<longrightarrow>
         cellAt (fst hq) a b = Some x' \<longrightarrow> isRevealed x' \<longrightarrow> neighborMines x = 0 \<longrightarrow>
           (a, b) \<in> set (snd hq) \<union> {} \<or>
           (\<forall>p\<in>set (neighbours a b). doneAt (fst hq) (fst p) (snd p))"
  proof (intro allI impI)
    fix a b x x'
    assume h: "cellAt g0 a b = Some x" "\<not> isRevealed x" "cellAt (fst hq) a b = Some x'"
      "isRevealed x'" "neighborMines x = 0"
    from z h have d: "(a, b) \<in> set (snd hq) \<union> {c} \<or>
           (\<forall>p\<in>set (neighbours a b). doneAt (fst hq) (fst p) (snd p))" by blast
    show "(a, b) \<in> set (snd hq) \<union> {} \<or>
           (\<forall>p\<in>set (neighbours a b). doneAt (fst hq) (fst p) (snd p))"
    proof (cases "(a, b) = c")
      case True
      then have "fst c = a" "snd c = b" by auto
      with around show ?thesis by simp
    next
      case False
      with d show ?thesis by auto
    qed
  qed
  from g w q' z' show ?thesis unfolding floodInv_def by (intro conjI)
qed

lemma clientAround_inv:
  assumes rect: "rectGrid g0 rws cls" and sz: "safeZeros g0"
    and inv: "floodInv g0 (floodRegion g0 i j) {(cr, cc)} hq"
  shows "\<exists>hq'. clientAround rws cls cr cc hq = Some (Inr hq') \<and>
     floodInv g0 (floodRegion g0 i j) {} hq'"
proof -
  let ?R = "floodRegion g0 i j"
  let ?f = "\<lambda>p. clientVisit rws cls (fst p) (snd p)"
  let ?S = "\<lambda>a :: Cell list list \<times> (int \<times> int) list. map length (fst a) = map length g0"
  have "\<exists>hq'. forEach (neighbours cr cc) ?f hq = Some (Inr hq') \<and> ?S hq'"
  proof (rule forEach_total[where I = ?S])
    show "?S hq" using inv by (simp add: floodInv_def grew_def)
  next
    fix x a assume a: "?S a"
    then have "rectGrid (fst a) rws cls" using rectGrid_shape[of "fst a" g0] rect by simp
    from clientVisit_total[OF this, of "fst x" "snd x"] obtain b where b: "?f x a = Some (Inr b)"
      by blast
    have "map length (fst b) = map length (fst a)" using clientVisit_grew[OF b] by (simp add: grew_def)
    with a b show "\<exists>b. ?f x a = Some (Inr b) \<and> ?S b" by simp
  qed
  then obtain hq' where run: "forEach (neighbours cr cc) ?f hq = Some (Inr hq')" by blast
  let ?I = "floodInv g0 ?R {(cr, cc)}"
  let ?Q = "\<lambda>p a. doneAt (fst a) (fst p) (snd p)"
  have post: "?I hq' \<and> (\<forall>p\<in>set (neighbours cr cc). ?Q p hq')"
  proof (rule forEach_post[OF run, where I = ?I and Q = ?Q])
    show "?I hq" by (rule inv)
  next
    fix x a b assume "x \<in> set (neighbours cr cc)" "?I a" "?f x a = Some (Inr b)"
    then show "?I b \<and> ?Q x b"
      using clientVisit_inv[OF rect sz, of i j cr cc a "fst x" "snd x" b] by simp
  next
    fix x y a b assume "?Q x a" "?f y a = Some (Inr b)"
    then show "?Q x b" using doneAt_grew[OF clientVisit_grew] by blast
  qed
  have "floodInv g0 ?R {} hq'"
    by (rule floodInv_done[of g0 ?R "(cr, cc)"]) (use post in simp_all)
  with run show ?thesis by (simp add: clientAround_flat)
qed

lemma clientFlood_inv:
  assumes sz: "safeZeros g0"
  shows "rectGrid g0 rws cls \<Longrightarrow> floodInv g0 (floodRegion g0 i j) {} (h, q) \<Longrightarrow>
     \<exists>g2. clientFlood rws cls q h = Inr g2 \<and> floodInv g0 (floodRegion g0 i j) {} (g2, [])"
proof (induction rws cls q h rule: clientFlood.induct)
  case (1 rws cls g)
  then show ?case by simp
next
  case (2 rws cls cr cc queue g)
  let ?R = "floodRegion g0 i j"
  have "floodInv g0 ?R {(cr, cc)} (g, queue)"
    using "2.prems"(2) by (rule floodInv_pop)
  from clientAround_inv[OF "2.prems"(1) sz this]
  obtain g' queue' where run: "clientAround rws cls cr cc (g, queue) = Some (Inr (g', queue'))"
    and inv: "floodInv g0 ?R {} (g', queue')" by (metis surj_pair)
  from "2.IH"[OF run refl refl "2.prems"(1) inv] run show ?case by simp
qed

lemma clientAround_grew:
  assumes "clientAround rws cls cr cc gq = Some (Inr gq')"
  shows "grew (fst gq) (fst gq')"
proof (rule forEach_inv[OF assms[unfolded clientAround_flat], where I = "\<lambda>a. grew (fst gq) (fst a)"])
  show "grew (fst gq) (fst gq)" by (rule grew_refl)
next
  fix x a b
  assume "grew (fst gq) (fst a)" "clientVisit rws cls (fst x) (snd x) a = Some (Inr b)"
  then show "grew (fst gq) (fst b)" using grew_trans clientVisit_grew by blast
qed

lemma clientFlood_grew:
  "clientFlood rws cls q h = Inr g2 \<Longrightarrow> grew h g2"
proof (induction rws cls q h rule: clientFlood.induct)
  case (1 rws cls g)
  then show ?case by (simp add: grew_refl)
next
  case (2 rws cls cr cc queue g)
  from "2.prems" obtain g' queue' where
    run: "clientAround rws cls cr cc (g, queue) = Some (Inr (g', queue'))"
    and rest: "clientFlood rws cls queue' g' = Inr g2"
    by (auto split: option.splits sum.splits)
  from clientAround_grew[OF run] have "grew g g'" by simp
  moreover have "grew g' g2" using "2.IH"[OF run refl refl rest] .
  ultimately show ?case by (rule grew_trans)
qed

lemma region_cells:
  assumes g: "grew g g'" and d: "doneAt g' i j" and c: "closed g g'"
    and w: "within g g' (floodRegion g i j)" and x: "cellAt g a b = Some x"
  shows "cellAt g' a b = Some (x\<lparr>isRevealed := isRevealed x \<or> (a, b) \<in> floodRegion g i j\<rparr>)"
proof -
  let ?R = "floodRegion g i j"
  from g x obtain q where q: "cellAt g' a b = Some (x\<lparr>isRevealed := q\<rparr>)" "isRevealed x \<longrightarrow> q"
    unfolding grew_def by blast
  have "q \<longleftrightarrow> isRevealed x \<or> (a, b) \<in> ?R"
  proof (cases "isRevealed x")
    case True
    then show ?thesis using q(2) by simp
  next
    case False
    show ?thesis
    proof (cases "(a, b) \<in> ?R")
      case True
      from floodRegion_revealed[OF g d c True] q(1) have q by simp
      then show ?thesis using True by simp
    next
      case out: False
      have "\<not> q"
      proof
        assume q
        then have "(a, b) \<in> ?R" using w x False q(1) unfolding within_def by fastforce
        with out show False ..
      qed
      then show ?thesis using False out by simp
    qed
  qed
  then show ?thesis using q(1) by simp
qed

lemma grid_eqI:
  assumes len: "map length g = map length g'"
    and cells: "\<And>a b. cellAt g a b = cellAt g' a b"
  shows "g = g'"
proof (rule nth_equalityI)
  show l: "length g = length g'" using len by (rule map_eq_imp_length_eq)
  fix k assume k: "k < length g"
  have "map length g ! k = map length g' ! k" using len by simp
  then have lk: "length (g ! k) = length (g' ! k)" using k l by simp
  show "g ! k = g' ! k"
  proof (rule nth_equalityI)
    show "length (g ! k) = length (g' ! k)" by (rule lk)
    fix m assume m: "m < length (g ! k)"
    have "cellAt g (int k) (int m) = Some (g ! k ! m)" using k m by (simp add: cellAt_def)
    moreover have "cellAt g' (int k) (int m) = Some (g' ! k ! m)"
      using k m l lk by (simp add: cellAt_def)
    ultimately show "g ! k ! m = g' ! k ! m" using cells[of "int k" "int m"] by simp
  qed
qed

lemma revealCell_quiet:
  "revealCell n now i j s = Some (Inr s') \<Longrightarrow> status s' = Playing \<Longrightarrow>
   status s = Playing \<and> endTime s' = endTime s"
proof (induction n arbitrary: i j s s')
  case 0
  then show ?case by simp
next
  case (Suc n)
  have v: "status a = Playing \<and> endTime b = endTime a"
    if "visit n now p a = Some (Inr b)" "status b = Playing" for p a b
    using that(1)
  proof (cases rule: visit_cases)
    case skip
    then show ?thesis using that(2) by simp
  next
    case call
    from Suc.IH[OF call(5) that(2)] show ?thesis .
  qed
  from Suc.prems(1) show ?case
  proof (cases rule: revealCell_cases)
    case idle
    then show ?thesis using Suc.prems(2) by simp
  next
    case (blocked cell)
    then show ?thesis by simp
  next
    case (mine cell)
    then show ?thesis using Suc.prems(2) by simp
  next
    case (number cell)
    then show ?thesis using Suc.prems(2) by (simp add: checkWin_def split: if_splits)
  next
    case (flood cell s2)
    let ?s1 = "s\<lparr>grid := setCell (grid s) i j (cell\<lparr>isRevealed := True\<rparr>)\<rparr>"
    let ?I = "\<lambda>a. status a = Playing \<longrightarrow> endTime a = endTime s"
    have "?I s2"
    proof (rule forEach_inv[OF flood(7), where I = ?I])
      show "?I ?s1" by simp
    next
      fix x a b assume a: "?I a" and b: "visit n now x a = Some (Inr b)"
      show "?I b"
      proof
        assume "status b = Playing"
        from v[OF b this] a show "endTime b = endTime s" by simp
      qed
    qed
    moreover have "s' = s2" "status s2 = Playing"
      using flood(8) Suc.prems(2) by (simp_all add: checkWin_def split: if_splits)
    ultimately show ?thesis using flood(1) by simp
  qed
qed

lemma clientFlood_region:
  assumes rect: "rectGrid g0 rws cls" and sz: "safeZeros g0"
    and cell: "cellAt g0 i j = Some cell" "\<not> isRevealed cell" "\<not> isFlagged cell"
      "\<not> isMine cell" "neighborMines cell = 0"
  shows "\<exists>g2. clientFlood rws cls [(i, j)] (setCell g0 i j (cell\<lparr>isRevealed := True\<rparr>)) = Inr g2 \<and>
     grew g0 g2 \<and> doneAt g2 i j \<and> closed g0 g2 \<and> within g0 g2 (floodRegion g0 i j)"
proof -
  let ?R = "floodRegion g0 i j"
  let ?g1 = "setCell g0 i j (cell\<lparr>isRevealed := True\<rparr>)"
  have ex: "cellAt g0 i j \<noteq> None" using cell(1) by simp
  have start: "(i, j) \<in> ?R" using cell(1,2,3) by (rule floodRegion.start)
  have g1: "grew g0 ?g1" using cell(1) by (rule grew_setCell)
  have w1: "within g0 ?g1 ?R"
    unfolding within_def
  proof (intro allI impI)
    fix a b x x'
    assume h: "cellAt g0 a b = Some x" "\<not> isRevealed x" "cellAt ?g1 a b = Some x'" "isRevealed x'"
    show "(a, b) \<in> ?R"
    proof (cases "a = i \<and> b = j")
      case True
      then show ?thesis using start by simp
    next
      case False
      have "cellAt ?g1 a b = (if a = i \<and> b = j then Some (cell\<lparr>isRevealed := True\<rparr>) else cellAt g0 a b)"
        by (rule cellAt_setCell[OF ex])
      also have "\<dots> = cellAt g0 a b" using False by (rule if_not_P)
      finally show ?thesis using h by simp
    qed
  qed
  have q1: "\<forall>p\<in>set (snd (?g1, [(i, j)])) \<union> {}. p \<in> ?R \<and>
         (\<exists>x. cellAt g0 (fst p) (snd p) = Some x \<and> \<not> isMine x \<and> neighborMines x = 0)"
    using start cell(1,4,5) by simp
  have z1: "\<forall>a b x x'. cellAt g0 a b = Some x \<longrightarrow> \<not> isRevealed x \<longrightarrow>
         cellAt (fst (?g1, [(i, j)])) a b = Some x' \<longrightarrow> isRevealed x' \<longrightarrow> neighborMines x = 0 \<longrightarrow>
           (a, b) \<in> set (snd (?g1, [(i, j)])) \<union> {} \<or>
           (\<forall>p\<in>set (neighbours a b). doneAt (fst (?g1, [(i, j)])) (fst p) (snd p))"
  proof (intro allI impI)
    fix a b x x'
    assume h: "cellAt g0 a b = Some x" "\<not> isRevealed x"
      "cellAt (fst (?g1, [(i, j)])) a b = Some x'" "isRevealed x'"
    have "a = i \<and> b = j"
    proof (rule ccontr)
      assume n: "\<not> (a = i \<and> b = j)"
      have "cellAt ?g1 a b = (if a = i \<and> b = j then Some (cell\<lparr>isRevealed := True\<rparr>) else cellAt g0 a b)"
        by (rule cellAt_setCell[OF ex])
      also have "\<dots> = cellAt g0 a b" using n by (rule if_not_P)
      finally show False using h by simp
    qed
    then show "(a, b) \<in> set (snd (?g1, [(i, j)])) \<union> {} \<or>
           (\<forall>p\<in>set (neighbours a b). doneAt (fst (?g1, [(i, j)])) (fst p) (snd p))" by simp
  qed
  have "floodInv g0 ?R {} (?g1, [(i, j)])"
    unfolding floodInv_def using g1 w1 q1 z1 by (intro conjI) simp_all
  from clientFlood_inv[OF sz rect this] obtain g2 where
    run: "clientFlood rws cls [(i, j)] ?g1 = Inr g2" and inv: "floodInv g0 ?R {} (g2, [])"
    by blast
  have g: "grew g0 g2" and w: "within g0 g2 ?R" using inv by (simp_all add: floodInv_def)
  have c: "closed g0 g2" using inv unfolding floodInv_def closed_def by simp
  have "doneAt ?g1 i j" using cellAt_setCell[OF ex, of "cell\<lparr>isRevealed := True\<rparr>" i j]
    by (simp add: doneAt_def)
  then have d: "doneAt g2 i j" using doneAt_grew[OF clientFlood_grew[OF run]] by blast
  from run g d c w show ?thesis by blast
qed

text \<open>
  On a well-formed state with correct counts, the client's reveal and the server's give
  the same result: the same state, or the same error for a target outside the grid.
\<close>

lemma clientReveal_agrees:
  assumes wf: "wfState s" and counts: "countsOK (grid s)" and deep: "allCells (grid s) < depth"
  shows "revealCell depth now i j s = Some (clientReveal now i j s)"
proof -
  from deep obtain n where n: "depth = Suc n" by (cases depth) simp_all
  show ?thesis
  proof (cases "status s = Playing")
    case False
    then show ?thesis unfolding n by (simp add: revealCell_Suc clientReveal_def)
  next
    case playing: True
    show ?thesis
    proof (cases "cellAt (grid s) i j")
      case None
      then show ?thesis unfolding n using playing by (simp add: revealCell_Suc clientReveal_def)
    next
      case (Some cell)
      let ?g1 = "setCell (grid s) i j (cell\<lparr>isRevealed := True\<rparr>)"
      show ?thesis
      proof (cases "isRevealed cell \<or> isFlagged cell")
        case True
        then show ?thesis unfolding n using playing Some
          by (simp add: revealCell_Suc clientReveal_def)
      next
        case untouched: False
        show ?thesis
        proof (cases "isMine cell")
          case True
          then show ?thesis unfolding n using playing Some untouched revealAllMines_setCell[OF Some True]
            by (simp add: revealCell_Suc clientReveal_def Let_def)
        next
          case safe: False
          show ?thesis
          proof (cases "neighborMines cell = 0")
            case False
            then show ?thesis unfolding n using playing Some untouched safe
              by (simp add: revealCell_Suc clientReveal_def Let_def checkWin_def)
          next
            case zero: True
            let ?R = "floodRegion (grid s) i j"
            have rect: "rectGrid (grid s) (rows s) (cols s)" using wf by (simp add: wfState_def)
            have sz: "safeZeros (grid s)" using counts by (rule countsOK_safeZeros)
            have "card (hidden (grid s)) < depth" using hidden_bound(2)[OF rect] deep by simp
            then obtain s' where r: "revealCell depth now i j s = Some (Inr s')"
              using revealCell_returns[OF wf, of depth i j now] Some by auto
            have ev: "evolves s s'" using r by (rule revealCell_evolves)
            then have g: "grew (grid s) (grid s')" by (simp add: evolves_def)
            have ok: "okStatus s" using playing by (simp add: okStatus_def)
            from revealCell_closed[OF wf sz ok Some safe r]
            have d: "doneAt (grid s') i j" and c: "closed (grid s) (grid s')" by simp_all
            have w: "within (grid s) (grid s') ?R"
              using revealCell_within[OF sz _ r] Some safe by simp
            from clientFlood_region[OF rect sz Some _ _ safe zero] untouched
            obtain g2 where run: "clientFlood (rows s) (cols s) [(i, j)] ?g1 = Inr g2"
              and g': "grew (grid s) g2" and d': "doneAt g2 i j" and c': "closed (grid s) g2"
              and w': "within (grid s) g2 ?R" by blast
            have same: "grid s' = g2"
            proof (rule grid_eqI)
              show "map length (grid s') = map length g2" using g g' by (simp add: grew_def)
            next
              fix a b
              show "cellAt (grid s') a b = cellAt g2 a b"
              proof (cases "cellAt (grid s) a b")
                case None
                have "cellAt (grid s') a b = None" "cellAt g2 a b = None"
                  using cellAt_shape[of "grid s'" "grid s" a b] cellAt_shape[of g2 "grid s" a b]
                    g g' None by (simp_all add: grew_def)
                then show ?thesis by simp
              next
                case (Some x)
                from region_cells[OF g d c w Some] region_cells[OF g' d' c' w' Some]
                show ?thesis by simp
              qed
            qed
            have notlost: "status s' \<noteq> Lost"
              using revealCell_safe[OF sz _ _ r] playing Some safe by simp
            from revealCell_win[OF r playing Some safe] untouched
            have won: "status s' = Won \<longleftrightarrow> unrevealedSafeCells (grid s') = 0"
              "status s' = Won \<longrightarrow> endTime s' = Some now" by simp_all
            have fields: "rows s' = rows s" "cols s' = cols s" "mines s' = mines s"
              "startTime s' = startTime s" "timeLimit s' = timeLimit s"
              using ev by (simp_all add: evolves_def)
            have res: "s' = (if unrevealedSafeCells g2 = 0
                then s\<lparr>grid := g2, status := Won, endTime := Some now\<rparr> else s\<lparr>grid := g2\<rparr>)"
            proof (cases "unrevealedSafeCells g2 = 0")
              case True
              then have "status s' = Won" "endTime s' = Some now" using won same by simp_all
              then show ?thesis using True same fields by (intro GameState.equality) simp_all
            next
              case False
              then have "status s' \<noteq> Won" using won same by simp
              then have p: "status s' = Playing" using notlost by (cases "status s'") simp_all
              from revealCell_quiet[OF r p] have "endTime s' = endTime s" by simp
              then show ?thesis using False same fields p playing by (intro GameState.equality) simp_all
            qed
            have "clientReveal now i j s = Inr s'"
              unfolding res using playing Some untouched safe zero run
              by (simp add: clientReveal_def Let_def)
            with r show ?thesis by simp
          qed
        qed
      qed
    qed
  qed
qed

lemma clientReveal_oneMine: "clientReveal 2000 0 2 oneMine = Inr oneMineWon"
  unfolding oneMine_def oneMineWon_def by code_simp

end
